theory Spec2Isabelle
  imports Complex_Main "HOL-Library.Word"
begin

unbundle bit_operations_syntax

section \<open>Machine types\<close>

text \<open>
  A shallow embedding of the SIXEL decoder of \<^verbatim>\<open>terminal/SixelParser.cpp\<close> (the color
  palette, the parser and the image builder) and of \<^verbatim>\<open>RasterizedImage::fragment\<close> of
  \<^verbatim>\<open>terminal/Image.cpp\<close>.

  The C++ code computes with \<^verbatim>\<open>unsigned\<close> and \<^verbatim>\<open>int\<close> (32 bits), \<^verbatim>\<open>uint8_t\<close>
  and \<^verbatim>\<open>int8_t\<close> (8 bits) and \<^verbatim>\<open>size_t\<close>. The 32-bit and 8-bit values are words, so
  that \<open>+\<close> and \<open>*\<close> wrap around as the unsigned arithmetic of the source does; an
  \<^verbatim>\<open>int\<close> is a word read with \<open>sint\<close> (two's complement), and a conversion between
  \<^verbatim>\<open>int\<close> and \<^verbatim>\<open>unsigned\<close> keeps the bits. Where the C++ would overflow an \<^verbatim>\<open>int\<close>,
  which is undefined behaviour, the word wraps; the theorems that depend on it exclude
  the overflow by a hypothesis. A \<^verbatim>\<open>size_t\<close> that is only compared, never computed
  with, is a \<open>nat\<close>. A \<^verbatim>\<open>std::vector\<close> is a list; an access outside of it, and a
  division by zero, are undefined behaviour in C++ and make the operation return
  \<open>None\<close>.
\<close>

type_synonym u8 = "8 word"
type_synonym i8 = "8 word"
type_synonym u32 = "32 word"
type_synonym i32 = "32 word"

record RGBColor =
  red :: u8
  green :: u8
  blue :: u8

record RGBAColor =
  rgba_red :: u8
  rgba_green :: u8
  rgba_blue :: u8
  rgba_alpha :: u8

record Size =
  width :: u32
  height :: u32

record Coordinate =
  row :: i32
  column :: i32

text \<open>\<^verbatim>\<open>std::vector::resize\<close>: cut, or extend with value-initialised elements.\<close>

definition resize :: "'a list \<Rightarrow> nat \<Rightarrow> 'a \<Rightarrow> 'a list" where
  "resize xs n d = take n xs @ replicate (n - length xs) d"

section \<open>SixelColorPalette\<close>

definition rgb :: "u8 \<Rightarrow> u8 \<Rightarrow> u8 \<Rightarrow> RGBColor" where
  "rgb r g b = \<lparr>red = r, green = g, blue = b\<rparr>"

definition defaultColors :: "RGBColor list" where
  "defaultColors =
    [rgb 0 0 0, rgb 51 51 204, rgb 204 33 33, rgb 51 204 51,
     rgb 204 51 204, rgb 51 204 204, rgb 204 204 51, rgb 135 135 135,
     rgb 66 66 66, rgb 84 84 153, rgb 153 66 66, rgb 84 153 84,
     rgb 153 84 153, rgb 84 153 153, rgb 153 153 84, rgb 204 204 204]"

record SixelColorPalette =
  palette :: "RGBColor list"
  maxSize :: nat

text \<open>
  Modelled from the spec: \<^verbatim>\<open>size()\<close>, declared in the header \<^verbatim>\<open>SixelParser.h\<close>
  (absent from the sources at hand), is the current length of the palette.
\<close>

definition palette_size :: "SixelColorPalette \<Rightarrow> nat" where
  "palette_size p = length (palette p)"

text \<open>\<^verbatim>\<open>for (i = 0; i < min(size(), 16); ++i) palette_[i] = defaultColors[i];\<close>\<close>

definition reset :: "SixelColorPalette \<Rightarrow> SixelColorPalette" where
  "reset p =
     p\<lparr>palette := fold (\<lambda>i pal. pal[i := defaultColors ! i])
                        [0 ..< min (palette_size p) (length defaultColors)] (palette p)\<rparr>"

definition new_SixelColorPalette :: "nat \<Rightarrow> nat \<Rightarrow> SixelColorPalette" where
  "new_SixelColorPalette sz maxSz =
     reset \<lparr>palette = (if sz > 0 then resize [] sz (rgb 0 0 0) else []), maxSize = maxSz\<rparr>"

definition setSize :: "SixelColorPalette \<Rightarrow> nat \<Rightarrow> SixelColorPalette" where
  "setSize p newSize =
     p\<lparr>palette := resize (palette p) (max 0 (min newSize (maxSize p))) (rgb 0 0 0)\<rparr>"

text \<open>
  \<^verbatim>\<open>setColor(unsigned _index, ...)\<close>: the sum \<^verbatim>\<open>_index + 1\<close> is computed in 32 bits
  before it is widened to the \<^verbatim>\<open>size_t\<close> argument of \<^verbatim>\<open>setSize\<close>.
\<close>

definition palette_setColor :: "SixelColorPalette \<Rightarrow> u32 \<Rightarrow> RGBColor \<Rightarrow> SixelColorPalette" where
  "palette_setColor p index color =
     (if unat index < maxSize p then
        let p1 = (if unat index \<ge> palette_size p then setSize p (unat (index + 1)) else p)
        in if unat index < length (palette p1)
           then p1\<lparr>palette := (palette p1)[unat index := color]\<rparr>
           else p1
      else p)"

text \<open>
  \<^verbatim>\<open>palette_[_index % palette_.size()]\<close>: the remainder by the length of an empty
  palette is a division by zero.
\<close>

definition palette_at :: "SixelColorPalette \<Rightarrow> u32 \<Rightarrow> RGBColor option" where
  "palette_at p index =
     (if length (palette p) = 0 then None
      else Some (palette p ! (unat index mod length (palette p))))"

datatype palette_op = OpSetColor u32 RGBColor | OpSetSize nat

fun palette_apply :: "palette_op \<Rightarrow> SixelColorPalette \<Rightarrow> SixelColorPalette" where
  "palette_apply (OpSetColor i c) p = palette_setColor p i c"
| "palette_apply (OpSetSize n) p = setSize p n"

definition palette_run :: "palette_op list \<Rightarrow> SixelColorPalette \<Rightarrow> SixelColorPalette" where
  "palette_run ops p = fold palette_apply ops p"

section \<open>SixelImageBuilder\<close>

record AspectRatio =
  nominator :: u32
  denominator :: u32

record SixelImageBuilder =
  b_maxSize :: Size
  colors :: SixelColorPalette
  b_size :: Size
  buffer :: "u8 list"
  sixelCursor :: Coordinate
  currentColor :: u32
  aspectRatio :: AspectRatio

text \<open>
  \<^verbatim>\<open>clear\<close>: the pointer \<open>p\<close> walks over the buffer, four bytes for each of the
  \<^verbatim>\<open>size_.width * size_.height\<close> pixels (a product of two \<^verbatim>\<open>unsigned\<close>).
\<close>

fun clear_loop :: "nat \<Rightarrow> nat \<Rightarrow> RGBAColor \<Rightarrow> u8 list \<Rightarrow> u8 list option" where
  "clear_loop 0 p c buf = Some buf"
| "clear_loop (Suc n) p c buf =
     (if p + 3 < length buf
      then clear_loop n (p + 4) c
             (buf[p := rgba_red c, p + 1 := rgba_green c, p + 2 := rgba_blue c,
                  p + 3 := rgba_alpha c])
      else None)"

definition clear :: "SixelImageBuilder \<Rightarrow> RGBAColor \<Rightarrow> SixelImageBuilder option" where
  "clear b fillColor =
     (case clear_loop (unat (width (b_size b) * height (b_size b))) 0 fillColor (buffer b) of
        None \<Rightarrow> None
      | Some buf \<Rightarrow> Some (b\<lparr>sixelCursor := \<lparr>row = 0, column = 0\<rparr>, buffer := buf\<rparr>))"

text \<open>
  The constructor: \<^verbatim>\<open>buffer_(size_.width * size_.height * 4)\<close> is a product of
  \<^verbatim>\<open>unsigned\<close> values, then \<^verbatim>\<open>clear(_backgroundColor)\<close>.
\<close>

definition new_SixelImageBuilder ::
  "Size \<Rightarrow> u32 \<Rightarrow> u32 \<Rightarrow> RGBAColor \<Rightarrow> SixelColorPalette \<Rightarrow> SixelImageBuilder option" where
  "new_SixelImageBuilder maxSz aspectVertical aspectHorizontal backgroundColor colorPalette =
     clear \<lparr>b_maxSize = maxSz, colors = colorPalette, b_size = maxSz,
            buffer = replicate (unat (width maxSz * height maxSz * 4)) 0,
            sixelCursor = \<lparr>row = 0, column = 0\<rparr>, currentColor = 0,
            aspectRatio = \<lparr>nominator = aspectVertical, denominator = aspectHorizontal\<rparr>\<rparr>
       backgroundColor"

text \<open>
  \<^verbatim>\<open>at(Coordinate)\<close>: \<^verbatim>\<open>_coord.row % size_.height\<close> converts the \<^verbatim>\<open>int\<close> to
  \<^verbatim>\<open>unsigned\<close>; the remainder by a zero extent is a division by zero.
\<close>

definition b_at :: "SixelImageBuilder \<Rightarrow> Coordinate \<Rightarrow> RGBAColor option" where
  "b_at b coord =
     (if height (b_size b) = 0 \<or> width (b_size b) = 0 then None
      else
        let r = row coord mod height (b_size b);
            c = column coord mod width (b_size b);
            base = unat (r * width (b_size b) * 4 + c * 4)
        in if base + 3 < length (buffer b)
           then Some \<lparr>rgba_red = buffer b ! base, rgba_green = buffer b ! (base + 1),
                       rgba_blue = buffer b ! (base + 2), rgba_alpha = buffer b ! (base + 3)\<rparr>
           else None)"

text \<open>
  \<^verbatim>\<open>write\<close>: the comparisons \<^verbatim>\<open>_coord.row < size_.height\<close> and
  \<^verbatim>\<open>_coord.column < size_.width\<close> are unsigned; \<^verbatim>\<open>base\<close> and the four indices
  \<^verbatim>\<open>base + k\<close> are \<^verbatim>\<open>unsigned\<close>.
\<close>

definition b_write :: "SixelImageBuilder \<Rightarrow> Coordinate \<Rightarrow> RGBColor \<Rightarrow> SixelImageBuilder option" where
  "b_write b coord v =
     (if 0 \<le> sint (row coord) \<and> row coord < height (b_size b)
         \<and> 0 \<le> sint (column coord) \<and> column coord < width (b_size b)
      then
        let base = row coord * width (b_size b) * 4 + column coord * 4
        in if unat (base + 0) < length (buffer b) \<and> unat (base + 1) < length (buffer b)
              \<and> unat (base + 2) < length (buffer b) \<and> unat (base + 3) < length (buffer b)
           then Some (b\<lparr>buffer := (buffer b)[unat (base + 0) := red v, unat (base + 1) := green v,
                                               unat (base + 2) := blue v, unat (base + 3) := 0xFF]\<rparr>)
           else None
      else Some b)"

definition b_setColor :: "SixelImageBuilder \<Rightarrow> u32 \<Rightarrow> RGBColor \<Rightarrow> SixelImageBuilder" where
  "b_setColor b index color = b\<lparr>colors := palette_setColor (colors b) index color\<rparr>"

definition useColor :: "SixelImageBuilder \<Rightarrow> u32 \<Rightarrow> SixelImageBuilder option" where
  "useColor b index =
     (if palette_size (colors b) = 0 then None
      else Some (b\<lparr>currentColor := of_nat (unat index mod palette_size (colors b))\<rparr>))"

definition rewind :: "SixelImageBuilder \<Rightarrow> SixelImageBuilder" where
  "rewind b = b\<lparr>sixelCursor := (sixelCursor b)\<lparr>column := 0\<rparr>\<rparr>"

text \<open>\<^verbatim>\<open>sixelCursor_.row + 6 < size_.height\<close>: the sum is an \<^verbatim>\<open>int\<close>, compared as \<^verbatim>\<open>unsigned\<close>.\<close>

definition newline :: "SixelImageBuilder \<Rightarrow> SixelImageBuilder" where
  "newline b =
     (let b1 = b\<lparr>sixelCursor := (sixelCursor b)\<lparr>column := 0\<rparr>\<rparr>
      in if row (sixelCursor b1) + 6 < height (b_size b1)
         then b1\<lparr>sixelCursor := (sixelCursor b1)\<lparr>row := row (sixelCursor b1) + 6\<rparr>\<rparr>
         else b1)"

text \<open>\<^verbatim>\<open>std::clamp(v, lo, hi)\<close>.\<close>

definition clamp :: "u32 \<Rightarrow> u32 \<Rightarrow> u32 \<Rightarrow> u32" where
  "clamp v lo hi = (if v < lo then lo else if hi < v then hi else v)"

text \<open>\<^verbatim>\<open>buffer_.resize(size_.width * size_.height * 4)\<close>: the product is \<^verbatim>\<open>unsigned\<close>.\<close>

definition setRaster :: "SixelImageBuilder \<Rightarrow> u32 \<Rightarrow> u32 \<Rightarrow> Size \<Rightarrow> SixelImageBuilder" where
  "setRaster b pan pad imageSize =
     (let b1 = b\<lparr>aspectRatio := \<lparr>nominator = pan, denominator = pad\<rparr>\<rparr>;
          b2 = b1\<lparr>b_size := \<lparr>width = clamp (width imageSize) 0 (width (b_maxSize b1)),
                              height = clamp (height imageSize) 0 (height (b_maxSize b1))\<rparr>\<rparr>
      in b2\<lparr>buffer := resize (buffer b2) (unat (width (b_size b2) * height (b_size b2) * 4)) 0\<rparr>)"

text \<open>
  Modelled from the spec: \<^verbatim>\<open>currentColor()\<close>, declared in the header
  \<^verbatim>\<open>SixelParser.h\<close> (absent from the sources at hand), is the current palette color,
  that is the lookup of \<^verbatim>\<open>currentColor_\<close> in the palette.
\<close>

definition b_currentColor :: "SixelImageBuilder \<Rightarrow> RGBColor option" where
  "b_currentColor b = palette_at (colors b) (currentColor b)"

text \<open>
  One turn of the loop of \<^verbatim>\<open>render\<close>: \<^verbatim>\<open>y = sixelCursor_.row + i\<close> is computed as
  \<^verbatim>\<open>unsigned\<close> and stored in the \<^verbatim>\<open>int\<close> row of the coordinate; the \<^verbatim>\<open>int8_t\<close>
  sixel is promoted to \<^verbatim>\<open>int\<close> for \<^verbatim>\<open>_sixel & (1 << i)\<close>.
\<close>

definition render_pin :: "nat \<Rightarrow> i8 \<Rightarrow> SixelImageBuilder \<Rightarrow> SixelImageBuilder option" where
  "render_pin i sixel b =
     (let x = column (sixelCursor b);
          y = row (sixelCursor b) + of_nat i;
          pos = \<lparr>row = y, column = x\<rparr>;
          pin = (push_bit i 1 :: i32);
          pinned = ((scast sixel :: i32) AND pin \<noteq> 0)
      in if pinned
         then (case b_currentColor b of None \<Rightarrow> None | Some c \<Rightarrow> b_write b pos c)
         else Some b)"

function render_loop :: "nat \<Rightarrow> i8 \<Rightarrow> SixelImageBuilder \<Rightarrow> SixelImageBuilder option" where
  "render_loop i sixel b =
     (if i < 6
      then (case render_pin i sixel b of
              None \<Rightarrow> None
            | Some b' \<Rightarrow> render_loop (i + 1) sixel b')
      else Some b)"
  by pat_completeness auto
termination
  by (relation "measure (\<lambda>(i, sixel, b). 6 - i)") auto

definition render :: "i8 \<Rightarrow> SixelImageBuilder \<Rightarrow> SixelImageBuilder option" where
  "render sixel b =
     (if column (sixelCursor b) < width (b_size b)
      then (case render_loop 0 sixel b of
              None \<Rightarrow> None
            | Some b' \<Rightarrow>
                Some (b'\<lparr>sixelCursor := (sixelCursor b')\<lparr>column := column (sixelCursor b') + 1\<rparr>\<rparr>))
      else Some b)"

text \<open>The events of the parser, and the builder as their sink.\<close>

datatype Event =
    Render i8
  | SetRaster u32 u32 Size
  | UseColor u32
  | SetColor u32 RGBColor
  | Rewind
  | Newline

fun apply_event :: "Event \<Rightarrow> SixelImageBuilder \<Rightarrow> SixelImageBuilder option" where
  "apply_event (Render sixel) b = render sixel b"
| "apply_event (SetRaster pan pad sz) b = Some (setRaster b pan pad sz)"
| "apply_event (UseColor index) b = useColor b index"
| "apply_event (SetColor index color) b = Some (b_setColor b index color)"
| "apply_event Rewind b = Some (rewind b)"
| "apply_event Newline b = Some (newline b)"

fun apply_events :: "Event list \<Rightarrow> SixelImageBuilder \<Rightarrow> SixelImageBuilder option" where
  "apply_events [] b = Some b"
| "apply_events (e # es) b =
     (case apply_event e b of None \<Rightarrow> None | Some b' \<Rightarrow> apply_events es b')"

fun cursor_event :: "Event \<Rightarrow> bool" where
  "cursor_event (Render sixel) = True"
| "cursor_event Rewind = True"
| "cursor_event Newline = True"
| "cursor_event (SetRaster pan pad sz) = False"
| "cursor_event (UseColor index) = False"
| "cursor_event (SetColor index color) = False"

text \<open>
  The states of the builder with a buffer of four bytes for each pixel of the raster,
  extents and a buffer length that the 32-bit arithmetic of the code represents, and a
  palette to look the current color up in.
\<close>

definition builder_ok :: "SixelImageBuilder \<Rightarrow> bool" where
  "builder_ok b \<longleftrightarrow>
     length (buffer b) = 4 * (unat (width (b_size b)) * unat (height (b_size b)))
     \<and> 4 * (unat (width (b_size b)) * unat (height (b_size b))) < 2 ^ 32
     \<and> unat (width (b_size b)) < 2 ^ 31 \<and> unat (height (b_size b)) < 2 ^ 31
     \<and> palette (colors b) \<noteq> []"

definition pixel_at :: "u8 list \<Rightarrow> nat \<Rightarrow> RGBAColor" where
  "pixel_at buf off = \<lparr>rgba_red = buf ! off, rgba_green = buf ! (off + 1),
                        rgba_blue = buf ! (off + 2), rgba_alpha = buf ! (off + 3)\<rparr>"

definition upd4 :: "u8 list \<Rightarrow> nat \<Rightarrow> RGBColor \<Rightarrow> u8 list" where
  "upd4 buf off v = buf[off := red v, off + 1 := green v, off + 2 := blue v, off + 3 := 0xFF]"

definition opaque :: "RGBColor \<Rightarrow> RGBAColor" where
  "opaque v = \<lparr>rgba_red = red v, rgba_green = green v, rgba_blue = blue v, rgba_alpha = 0xFF\<rparr>"

definition cur_color :: "SixelImageBuilder \<Rightarrow> RGBColor" where
  "cur_color b = palette (colors b) ! (unat (currentColor b) mod length (palette (colors b)))"

definition idx :: "SixelImageBuilder \<Rightarrow> u32 \<Rightarrow> u32 \<Rightarrow> nat" where
  "idx b r c = 4 * (unat r * unat (width (b_size b)) + unat c)"

section \<open>SixelParser\<close>

datatype State = Ground | RepeatIntroducer | ColorIntroducer | ColorParam | RasterSettings

record SixelParser =
  state :: State
  params :: "u32 list"

definition isDigit :: "u32 \<Rightarrow> bool" where
  "isDigit v \<longleftrightarrow> v \<ge> 48 \<and> v \<le> 57"

definition toDigit :: "u32 \<Rightarrow> u32" where
  "toDigit v = v - 48"

definition isSixel :: "u32 \<Rightarrow> bool" where
  "isSixel v \<longleftrightarrow> v \<ge> 63 \<and> v \<le> 126"

definition toSixel :: "u32 \<Rightarrow> i8" where
  "toSixel v = ucast (v - 63)"

text \<open>\<^verbatim>\<open>params_.back()\<close> of an empty vector is undefined.\<close>

definition paramShiftAndAddDigit :: "SixelParser \<Rightarrow> u32 \<Rightarrow> SixelParser option" where
  "paramShiftAndAddDigit p v =
     (if params p = [] then None
      else Some (p\<lparr>params := butlast (params p) @ [last (params p) * 10 + v]\<rparr>))"

definition enterState :: "SixelParser \<Rightarrow> SixelParser" where
  "enterState p =
     (case state p of
        ColorIntroducer \<Rightarrow> p\<lparr>params := [0]\<rparr>
      | RepeatIntroducer \<Rightarrow> p\<lparr>params := [0]\<rparr>
      | RasterSettings \<Rightarrow> p\<lparr>params := [0]\<rparr>
      | Ground \<Rightarrow> p
      | ColorParam \<Rightarrow> p)"

text \<open>
  \<^verbatim>\<open>convertValue\<close> computes in \<^verbatim>\<open>float\<close>. The three operations
  \<^verbatim>\<open>static_cast<float>(_value)\<close>, \<^verbatim>\<open>* 255.0f\<close> and \<^verbatim>\<open>/ 100.0f\<close> are the exact
  operation followed by the rounding of IEEE 754 binary32 (24 bits of significand, to
  nearest, ties to even), modelled on the rationals. The values that occur are \<open>0\<close> or lie
  in \<open>[1, 2 ^ 41)\<close>, far from the subnormal and the infinite range, which are left out.
  The conversion of a \<^verbatim>\<open>float\<close> of \<open>2 ^ 32\<close> or more to \<^verbatim>\<open>unsigned\<close> is undefined.
\<close>

fun bitlen :: "nat \<Rightarrow> nat" where
  "bitlen n = (if n = 0 then 0 else Suc (bitlen (n div 2)))"

text \<open>The exponent \<open>k\<close> with \<open>2 ^ k \<le> x < 2 ^ (k + 1)\<close>, for \<open>x > 0\<close>.\<close>

definition ilog2 :: "rat \<Rightarrow> int" where
  "ilog2 x = (if 1 \<le> x then int (bitlen (nat \<lfloor>x\<rfloor>)) - 1
              else - int (bitlen (nat \<lceil>1 / x\<rceil> - 1)))"

text \<open>Rounding to the nearest integer, ties to even.\<close>

definition rne :: "rat \<Rightarrow> int" where
  "rne x = (let f = \<lfloor>x\<rfloor>; d = x - of_int f
            in if d < 1 / 2 then f
               else if 1 / 2 < d then f + 1
               else if even f then f else f + 1)"

definition f32_round :: "rat \<Rightarrow> rat" where
  "f32_round x =
     (if x = 0 then 0
      else let e = ilog2 x - 23
           in if 0 \<le> e then of_int (rne (x / 2 ^ nat e)) * 2 ^ nat e
              else of_int (rne (x * 2 ^ nat (- e))) / 2 ^ nat (- e))"

definition convertValue :: "u32 \<Rightarrow> u8 option" where
  "convertValue v =
     (let f = f32_round (of_nat (unat v));
          p = f32_round (f * 255);
          q = f32_round (p / 100)
      in if q < 2 ^ 32
         then Some (ucast ((word_of_int \<lfloor>q\<rfloor> :: u32) mod 256))
         else None)"

text \<open>
  \<^verbatim>\<open>leaveState\<close>: the parser and the events it emits; \<open>None\<close> where \<^verbatim>\<open>convertValue\<close>
  is undefined.
\<close>

definition leaveState :: "SixelParser \<Rightarrow> (SixelParser \<times> Event list) option" where
  "leaveState p =
     (case state p of
        Ground \<Rightarrow> Some (p, [])
      | ColorIntroducer \<Rightarrow> Some (p, [])
      | RepeatIntroducer \<Rightarrow> Some (p, [])
      | RasterSettings \<Rightarrow>
          if length (params p) = 4
          then Some (p\<lparr>state := Ground\<rparr>,
                     [SetRaster (params p ! 0) (params p ! 1)
                        \<lparr>width = params p ! 2, height = params p ! 3\<rparr>])
          else Some (p, [])
      | ColorParam \<Rightarrow>
          if length (params p) = 1
          then Some (p, [UseColor (params p ! 0)])
          else if length (params p) = 5
          then (if params p ! 1 = 2
                then (case convertValue (params p ! 2) of
                        None \<Rightarrow> None
                      | Some p1 \<Rightarrow>
                         (case convertValue (params p ! 3) of
                            None \<Rightarrow> None
                          | Some p2 \<Rightarrow>
                             (case convertValue (params p ! 4) of
                                None \<Rightarrow> None
                              | Some p3 \<Rightarrow>
                                  Some (p, [SetColor (params p ! 0)
                                              \<lparr>red = p1, green = p2, blue = p3\<rparr>]))))
                else Some (p, []))
          else Some (p, []))"

definition transitionTo :: "SixelParser \<Rightarrow> State \<Rightarrow> (SixelParser \<times> Event list) option" where
  "transitionTo p newState =
     (case leaveState p of
        None \<Rightarrow> None
      | Some (p1, evs) \<Rightarrow> Some (enterState (p1\<lparr>state := newState\<rparr>), evs))"

text \<open>The characters \<^verbatim>\<open>#\<close>, \<^verbatim>\<open>!\<close>, \<^verbatim>\<open>"\<close>, \<^verbatim>\<open>$\<close>, \<^verbatim>\<open>-\<close> are 35, 33, 34, 36, 45.\<close>

definition fallback :: "SixelParser \<Rightarrow> u32 \<Rightarrow> (SixelParser \<times> Event list) option" where
  "fallback p v =
     (if v = 35 then transitionTo p ColorIntroducer
      else if v = 33 then transitionTo p RepeatIntroducer
      else if v = 34 then transitionTo p RasterSettings
      else if v = 36 then
        (case transitionTo p Ground of
           None \<Rightarrow> None | Some (p1, evs) \<Rightarrow> Some (p1, evs @ [Rewind]))
      else if v = 45 then
        (case transitionTo p Ground of
           None \<Rightarrow> None | Some (p1, evs) \<Rightarrow> Some (p1, evs @ [Newline]))
      else
        (case (if state p \<noteq> Ground then transitionTo p Ground else Some (p, [])) of
           None \<Rightarrow> None
         | Some (p1, evs) \<Rightarrow>
             Some (p1, if isSixel v then evs @ [Render (toSixel v)] else evs)))"

text \<open>\<^verbatim>\<open>for (unsigned i = 0; i < params_[0]; ++i) events_.render(sixel);\<close>\<close>

function repeat_loop :: "nat \<Rightarrow> nat \<Rightarrow> i8 \<Rightarrow> Event list \<Rightarrow> Event list" where
  "repeat_loop i n sixel evs =
     (if i < n then repeat_loop (i + 1) n sixel (evs @ [Render sixel]) else evs)"
  by pat_completeness auto
termination
  by (relation "measure (\<lambda>(i, n, sixel, evs). n - i)") auto

text \<open>The character \<^verbatim>\<open>;\<close> is 59. \<^verbatim>\<open>params_[0]\<close> of an empty vector is undefined.\<close>

definition parse :: "SixelParser \<Rightarrow> u32 \<Rightarrow> (SixelParser \<times> Event list) option" where
  "parse p v =
     (case state p of
        Ground \<Rightarrow> fallback p v
      | RepeatIntroducer \<Rightarrow>
          if isDigit v then
            (case paramShiftAndAddDigit p (toDigit v) of
               None \<Rightarrow> None | Some p1 \<Rightarrow> Some (p1, []))
          else if isSixel v then
            (if params p = [] then None
             else
               let evs = repeat_loop 0 (unat (params p ! 0)) (toSixel v) []
               in (case transitionTo p Ground of
                     None \<Rightarrow> None | Some (p1, evs1) \<Rightarrow> Some (p1, evs @ evs1)))
          else fallback p v
      | ColorIntroducer \<Rightarrow>
          if isDigit v then
            (case paramShiftAndAddDigit p (toDigit v) of
               None \<Rightarrow> None | Some p1 \<Rightarrow> transitionTo p1 ColorParam)
          else fallback p v
      | ColorParam \<Rightarrow>
          if isDigit v then
            (case paramShiftAndAddDigit p (toDigit v) of
               None \<Rightarrow> None | Some p1 \<Rightarrow> Some (p1, []))
          else if v = 59 then Some (p\<lparr>params := params p @ [0]\<rparr>, [])
          else fallback p v
      | RasterSettings \<Rightarrow>
          if isDigit v then
            (case paramShiftAndAddDigit p (toDigit v) of
               None \<Rightarrow> None | Some p1 \<Rightarrow> Some (p1, []))
          else if v = 59 then Some (p\<lparr>params := params p @ [0]\<rparr>, [])
          else fallback p v)"

fun parse_all :: "SixelParser \<Rightarrow> u32 list \<Rightarrow> (SixelParser \<times> Event list) option" where
  "parse_all p [] = Some (p, [])"
| "parse_all p (v # vs) =
     (case parse p v of
        None \<Rightarrow> None
      | Some (p1, evs) \<Rightarrow>
         (case parse_all p1 vs of
            None \<Rightarrow> None
          | Some (p2, evs2) \<Rightarrow> Some (p2, evs @ evs2)))"

text \<open>
  Modelled from the spec: the members of the parser are initialised in the header
  \<^verbatim>\<open>SixelParser.h\<close> (absent from the sources at hand); the initial state is \<open>Ground\<close>,
  with no parameters.
\<close>

definition new_SixelParser :: SixelParser where
  "new_SixelParser = \<lparr>state = Ground, params = []\<rparr>"

text \<open>Concrete builders, to run the operations on.\<close>

definition example_builder :: SixelImageBuilder where
  "example_builder =
     \<lparr>b_maxSize = \<lparr>width = 1, height = 2\<rparr>,
      colors = \<lparr>palette = [rgb 1 2 3], maxSize = 4\<rparr>,
      b_size = \<lparr>width = 1, height = 2\<rparr>,
      buffer = [0, 0, 0, 255, 0, 0, 0, 255],
      sixelCursor = \<lparr>row = 0, column = 0\<rparr>,
      currentColor = 0,
      aspectRatio = \<lparr>nominator = 1, denominator = 1\<rparr>\<rparr>"

definition wide_builder :: SixelImageBuilder where
  "wide_builder =
     \<lparr>b_maxSize = \<lparr>width = 65536, height = 65536\<rparr>,
      colors = \<lparr>palette = [rgb 1 2 3], maxSize = 4\<rparr>,
      b_size = \<lparr>width = 65536, height = 65536\<rparr>,
      buffer = [],
      sixelCursor = \<lparr>row = 0, column = 0\<rparr>,
      currentColor = 0,
      aspectRatio = \<lparr>nominator = 1, denominator = 1\<rparr>\<rparr>"

definition opaque_black :: RGBAColor where
  "opaque_black = \<lparr>rgba_red = 0, rgba_green = 0, rgba_blue = 0, rgba_alpha = 255\<rparr>"

definition far_builder :: SixelImageBuilder where
  "far_builder = example_builder\<lparr>b_maxSize := \<lparr>width = 8, height = 6\<rparr>,
                                   sixelCursor := \<lparr>row = 0, column = 5\<rparr>\<rparr>"

text \<open>
  Two builders with the cursor in column 1: one with a band of rows below the cursor
  row (\<open>0 + 6 < 13\<close>), one with the cursor in the last band (\<open>6 + 6 = 12\<close>).
\<close>

definition tall_builder :: SixelImageBuilder where
  "tall_builder =
     \<lparr>b_maxSize = \<lparr>width = 2, height = 13\<rparr>,
      colors = \<lparr>palette = [rgb 1 2 3], maxSize = 4\<rparr>,
      b_size = \<lparr>width = 2, height = 13\<rparr>,
      buffer = replicate 104 7,
      sixelCursor = \<lparr>row = 0, column = 1\<rparr>,
      currentColor = 0,
      aspectRatio = \<lparr>nominator = 1, denominator = 1\<rparr>\<rparr>"

definition last_band_builder :: SixelImageBuilder where
  "last_band_builder =
     \<lparr>b_maxSize = \<lparr>width = 2, height = 12\<rparr>,
      colors = \<lparr>palette = [rgb 1 2 3], maxSize = 4\<rparr>,
      b_size = \<lparr>width = 2, height = 12\<rparr>,
      buffer = replicate 96 7,
      sixelCursor = \<lparr>row = 6, column = 1\<rparr>,
      currentColor = 0,
      aspectRatio = \<lparr>nominator = 1, denominator = 1\<rparr>\<rparr>"

text \<open>The invariant of the cursor under \<open>render\<close>, \<open>rewind\<close> and \<open>newline\<close>.\<close>

definition cursor_inv :: "SixelImageBuilder \<Rightarrow> bool" where
  "cursor_inv b \<longleftrightarrow>
     uint (row (sixelCursor b)) mod 6 = 0
     \<and> uint (row (sixelCursor b)) \<le> uint (height (b_size b))
     \<and> uint (column (sixelCursor b)) \<le> uint (width (b_size b))"

definition vt340_3 :: SixelColorPalette where
  "vt340_3 = \<lparr>palette = [rgb 0 0 0, rgb 51 51 204, rgb 204 33 33], maxSize = 16\<rparr>"

text \<open>
  The conversion of a color component as the specification words it:
  \<open>scale(v) = floor(v \<cdot> 255 / 100) mod 256\<close>.
\<close>

definition scale :: "u32 \<Rightarrow> u8" where
  "scale v = of_nat (unat v * 255 div 100 mod 256)"

definition red_def_parser :: SixelParser where
  "red_def_parser = \<lparr>state = ColorParam, params = [5, 2, 100, 0, 0]\<rparr>"

section \<open>Image and RasterizedImage\<close>

text \<open>
  Modelled from the spec: the classes \<^verbatim>\<open>Image\<close> and \<^verbatim>\<open>RasterizedImage\<close> are declared in
  the header \<^verbatim>\<open>Image.h\<close> (absent from the sources at hand). An image has a pixel size
  (\<^verbatim>\<open>width()\<close>, \<^verbatim>\<open>height()\<close>) and an owned byte buffer (\<^verbatim>\<open>data()\<close>); a rasterized
  image refers to an image and has a default color, a cell span and a cell size. The
  identifier and the format of an image and the alignment and resize policies, which
  \<^verbatim>\<open>fragment\<close> does not read, are left out.
\<close>

record Image =
  img_size :: Size
  img_data :: "u8 list"

record RasterizedImage =
  image :: Image
  defaultColor :: RGBAColor
  cellSpan :: Size
  cellSize :: Size

definition rgba_bytes :: "RGBAColor \<Rightarrow> u8 list" where
  "rgba_bytes c = [rgba_red c, rgba_green c, rgba_blue c, rgba_alpha c]"

text \<open>
  The state of the writing loops is the output buffer and the index of \<^verbatim>\<open>target\<close> in it.
  Four times \<^verbatim>\<open>*target++ = ...\<close>:
\<close>

definition put_color :: "RGBAColor \<Rightarrow> u8 list \<times> nat \<Rightarrow> (u8 list \<times> nat) option" where
  "put_color c st =
     (case st of (buf, t) \<Rightarrow>
        if t + 3 < length buf
        then Some (buf[t := rgba_red c, t + 1 := rgba_green c, t + 2 := rgba_blue c,
                       t + 3 := rgba_alpha c], t + 4)
        else None)"

text \<open>
  \<^verbatim>\<open>for (y = from; y < to; ++y) { four writes }\<close>. The counter is \<^verbatim>\<open>unsigned\<close>; it
  stays below its bound, so it does not wrap and is a \<open>nat\<close> here.
\<close>

function fill_loop ::
  "nat \<Rightarrow> nat \<Rightarrow> RGBAColor \<Rightarrow> u8 list \<times> nat \<Rightarrow> (u8 list \<times> nat) option" where
  "fill_loop y n c st =
     (if y < n
      then (case put_color c st of None \<Rightarrow> None | Some st' \<Rightarrow> fill_loop (y + 1) n c st')
      else Some st)"
  by pat_completeness auto
termination
  by (relation "measure (\<lambda>(y, n, c, st). n - y)") auto

text \<open>
  \<^verbatim>\<open>target = copy(source, source + n, target)\<close> with \<^verbatim>\<open>source = &data[off]\<close>: nothing
  is read or written when \<open>n = 0\<close>.
\<close>

definition copy_bytes ::
  "u8 list \<Rightarrow> nat \<Rightarrow> nat \<Rightarrow> u8 list \<times> nat \<Rightarrow> (u8 list \<times> nat) option" where
  "copy_bytes src off n st =
     (case st of (buf, t) \<Rightarrow>
        if n = 0 then Some st
        else if off + n \<le> length src \<and> t + n \<le> length buf
        then Some (take t buf @ take n (drop off src) @ drop (t + n) buf, t + n)
        else None)"

text \<open>
  The loop over the rows of the image: the start offset is computed in \<^verbatim>\<open>unsigned\<close>,
  widened to \<^verbatim>\<open>size_t\<close> and multiplied by 4; the number of bytes copied,
  \<^verbatim>\<open>availableWidth * 4\<close>, is \<^verbatim>\<open>unsigned\<close>.
\<close>

function row_loop ::
  "nat \<Rightarrow> RasterizedImage \<Rightarrow> u32 \<Rightarrow> u32 \<Rightarrow> u32 \<Rightarrow> u32 \<Rightarrow> u8 list \<times> nat
     \<Rightarrow> (u8 list \<times> nat) option" where
  "row_loop y ri xOffset yOffset availableWidth availableHeight st =
     (if y < unat availableHeight
      then
        (let startOffset =
               unat ((yOffset + (availableHeight - 1 - of_nat y)) * width (img_size (image ri))
                     + xOffset) * 4
         in case copy_bytes (img_data (image ri)) startOffset (unat (availableWidth * 4)) st of
              None \<Rightarrow> None
            | Some st1 \<Rightarrow>
               (case fill_loop (unat availableWidth) (unat (width (cellSize ri)))
                       (defaultColor ri) st1 of
                  None \<Rightarrow> None
                | Some st2 \<Rightarrow>
                    row_loop (y + 1) ri xOffset yOffset availableWidth availableHeight st2))
      else Some st)"
  by pat_completeness auto
termination
  by (relation "measure (\<lambda>(y, ri, xOffset, yOffset, availableWidth, availableHeight, st).
        unat availableHeight - y)") auto

text \<open>
  \<^verbatim>\<open>fragment\<close>: the offsets are products of \<^verbatim>\<open>int\<close>, read as \<^verbatim>\<open>unsigned\<close>; the buffer
  length is a product of \<^verbatim>\<open>size_t\<close> (64 bits); a failing \<^verbatim>\<open>assert\<close> gives \<open>None\<close>.
\<close>

definition fragment :: "RasterizedImage \<Rightarrow> Coordinate \<Rightarrow> u8 list option" where
  "fragment ri pos =
     (let xOffset = column pos * width (cellSize ri);
          yOffset = row pos * height (cellSize ri);
          fragData = replicate
            ((unat (width (cellSize ri)) * unat (height (cellSize ri)) * 4) mod 2 ^ 64) (0 :: u8)
      in if \<not> (width (img_size (image ri)) \<ge> xOffset) then None
         else
           let availableWidth = min (width (img_size (image ri)) - xOffset) (width (cellSize ri))
           in if \<not> (height (img_size (image ri)) \<ge> yOffset) then None
              else
                let availableHeight =
                      min (height (img_size (image ri)) - yOffset) (height (cellSize ri))
                in case fill_loop (unat (availableHeight * width (cellSize ri)))
                          (unat (height (cellSize ri) * width (cellSize ri)))
                          (defaultColor ri) (fragData, 0) of
                     None \<Rightarrow> None
                   | Some st \<Rightarrow>
                      (case row_loop 0 ri xOffset yOffset availableWidth availableHeight st of
                         None \<Rightarrow> None
                       | Some (buf, t) \<Rightarrow> Some buf))"

text \<open>An image of one pixel in a cell of one by two pixels.\<close>

definition one_pixel :: RasterizedImage where
  "one_pixel =
     \<lparr>image = \<lparr>img_size = \<lparr>width = 1, height = 1\<rparr>, img_data = [1, 2, 3, 4]\<rparr>,
      defaultColor = \<lparr>rgba_red = 9, rgba_green = 9, rgba_blue = 9, rgba_alpha = 9\<rparr>,
      cellSpan = \<lparr>width = 1, height = 1\<rparr>,
      cellSize = \<lparr>width = 1, height = 2\<rparr>\<rparr>"

text \<open>
  One row of a fragment in closed form: the bytes of \<open>aw\<close> pixels of row
  \<open>yo + (ah - 1 - y)\<close> of the image, from column \<open>xo\<close> on, then the default color up to
  the width of the cell.
\<close>

definition frag_row :: "RasterizedImage \<Rightarrow> nat \<Rightarrow> nat \<Rightarrow> nat \<Rightarrow> nat \<Rightarrow> nat \<Rightarrow> u8 list" where
  "frag_row ri xo yo aw ah y =
     take (4 * aw)
       (drop (4 * ((yo + (ah - 1 - y)) * unat (width (img_size (image ri))) + xo))
          (img_data (image ri)))
     @ concat (replicate (unat (width (cellSize ri)) - aw) (rgba_bytes (defaultColor ri)))"

section \<open>Palette: lemmas\<close>

lemma length_resize: "length (resize xs n d) = n"
  by (simp add: resize_def)

lemma length_fold_update:
  "length (fold (\<lambda>i pal. pal[i := f i]) is xs) = length xs"
  by (induction "is" arbitrary: xs) simp_all

lemma length_reset: "length (palette (reset p)) = length (palette p)"
  by (simp add: reset_def length_fold_update)

lemma maxSize_reset: "maxSize (reset p) = maxSize p"
  by (simp add: reset_def)

lemma length_new_palette: "length (palette (new_SixelColorPalette sz m)) = sz"
  by (simp add: new_SixelColorPalette_def length_reset length_resize)

lemma maxSize_new_palette: "maxSize (new_SixelColorPalette sz m) = m"
  by (simp add: new_SixelColorPalette_def maxSize_reset)

lemma setSize_cap: "length (palette (setSize p n)) \<le> maxSize (setSize p n)"
  by (simp add: setSize_def length_resize)

lemma maxSize_setSize: "maxSize (setSize p n) = maxSize p"
  by (simp add: setSize_def)

lemma maxSize_setColor: "maxSize (palette_setColor p i c) = maxSize p"
  by (simp add: palette_setColor_def Let_def maxSize_setSize)

lemma setColor_cap:
  "length (palette p) \<le> maxSize p \<Longrightarrow>
   length (palette (palette_setColor p i c)) \<le> maxSize p"
  by (simp add: palette_setColor_def Let_def palette_size_def setSize_def length_resize)

lemma palette_apply_cap:
  "length (palette p) \<le> maxSize p \<Longrightarrow>
   length (palette (palette_apply x p)) \<le> maxSize (palette_apply x p)"
  by (cases x) (simp_all add: setColor_cap maxSize_setColor setSize_cap)

lemma palette_run_cap:
  "length (palette p) \<le> maxSize p \<Longrightarrow>
   length (palette (palette_run ops p)) \<le> maxSize (palette_run ops p)"
  unfolding palette_run_def
  by (induction ops arbitrary: p) (simp_all add: palette_apply_cap)

section \<open>Builder: lemmas\<close>

lemma index_bound:
  fixes r c w h :: nat
  assumes "r < h" "c < w"
  shows "r * w + c < w * h"
proof -
  have "r * w + c < r * w + w" using assms by simp
  also have "\<dots> = Suc r * w" by simp
  also have "\<dots> \<le> h * w" using assms by (intro mult_le_mono1) simp
  finally show ?thesis by (simp add: mult.commute)
qed

lemma index_inj:
  fixes r c w r' c' :: nat
  assumes "c < w" "c' < w" "r * w + c = r' * w + c'"
  shows "r = r' \<and> c = c'"
proof -
  have "(c + r * w) div w = r" "(c' + r' * w) div w = r'"
    using assms by simp_all
  moreover have "c + r * w = c' + r' * w"
    using assms by (simp add: add.commute)
  ultimately have "r = r'" by simp
  then show ?thesis using assms by simp
qed

lemma dims_small:
  fixes r c w h :: nat
  assumes "r < h" "c < w" "4 * (w * h) < 2 ^ 32"
  shows "r < 2 ^ 30" "c < 2 ^ 30"
proof -
  have "1 * h \<le> w * h" using assms by (intro mult_le_mono1) simp
  then have "h \<le> w * h" by simp
  then have "4 * h < 2 ^ 32" using assms(3) by linarith
  then show "r < 2 ^ 30" using assms by simp
  have "w * 1 \<le> w * h" using assms by (intro mult_le_mono2) simp
  then have "w \<le> w * h" by simp
  then have "4 * w < 2 ^ 32" using assms(3) by linarith
  then show "c < 2 ^ 30" using assms by simp
qed

lemma unat_offset:
  fixes r c w h k :: u32
  assumes "unat r < unat h" "unat c < unat w" "4 * (unat w * unat h) < 2 ^ 32" "unat k < 4"
  shows "unat (r * w * 4 + c * 4 + k) = 4 * (unat r * unat w + unat c) + unat k"
proof -
  define n where "n = unat r * unat w + unat c"
  have b: "n < unat w * unat h"
    unfolding n_def using assms(1,2) by (rule index_bound)
  have "r * w * 4 + c * 4 + k = word_of_nat (4 * n + unat k)"
    by (simp add: n_def)
  then have "unat (r * w * 4 + c * 4 + k) = (4 * n + unat k) mod 2 ^ 32"
    by (simp only: unat_of_nat) simp
  also have "\<dots> = 4 * n + unat k"
    using b assms(3,4) by (intro mod_less) linarith
  finally show ?thesis by (simp add: n_def)
qed

lemma uint_lt_of_unat:
  fixes x :: "32 word"
  assumes "unat x < n"
  shows "uint x < int n"
proof -
  have "int (unat x) < int n" using assms by (rule iffD2 [OF of_nat_less_iff])
  then show ?thesis by simp
qed

lemma sint_small:
  fixes x :: "32 word"
  assumes "unat x < 2 ^ 31"
  shows "sint x = int (unat x)"
proof -
  have "uint x < 2 ^ 31" using uint_lt_of_unat [OF assms] by simp
  moreover have "- (2 ^ 31) \<le> uint x"
    by (rule order_trans [of _ 0]) simp_all
  ultimately have "signed_take_bit 31 (uint x) = uint x"
    by (intro signed_take_bit_int_eq_self)
  then show ?thesis by (simp add: sint_uint)
qed

lemma sint_big:
  fixes x :: "32 word"
  assumes "2 ^ 31 \<le> unat x"
  shows "sint x = int (unat x) - 2 ^ 32"
proof -
  have u: "2 ^ 31 \<le> uint x"
  proof -
    have "int (2 ^ 31) \<le> int (unat x)" using assms by (rule iffD2 [OF of_nat_le_iff])
    then show ?thesis by simp
  qed
  have l: "uint x < 2 ^ 32"
    using uint_bounded [of x] by simp
  have "signed_take_bit 31 (uint x) = signed_take_bit 31 (uint x - 2 ^ 32)"
    by (simp add: signed_take_bit_eq_iff_take_bit_eq take_bit_eq_mod)
  also have "\<dots> = uint x - 2 ^ 32"
    using u l by (intro signed_take_bit_int_eq_self) simp_all
  finally show ?thesis by (simp add: sint_uint)
qed

lemma sint_nonneg_iff:
  fixes x :: "32 word"
  shows "0 \<le> sint x \<longleftrightarrow> unat x < 2 ^ 31"
proof (cases "unat x < 2 ^ 31")
  case True
  then show ?thesis using sint_small [OF True] by simp
next
  case False
  then have "2 ^ 31 \<le> unat x" by simp
  from sint_big [OF this] have "sint x = uint x - 2 ^ 32" by simp
  moreover have "uint x < 2 ^ 32" using uint_bounded [of x] by simp
  ultimately show ?thesis using False by simp
qed

lemma length_upd4: "length (upd4 buf off v) = length buf"
  by (simp add: upd4_def)

lemma pixel_at_upd4:
  assumes "4 * a + 3 < length buf"
  shows "pixel_at (upd4 buf (4 * a) v) (4 * a') =
           (if a' = a then opaque v else pixel_at buf (4 * a'))"
proof (cases "a' = a")
  case True
  then show ?thesis using assms by (simp add: pixel_at_def upd4_def opaque_def)
next
  case False
  then have "4 * a' + 3 < 4 * a \<or> 4 * a + 3 < 4 * a'" by linarith
  then show ?thesis using False by (auto simp add: pixel_at_def upd4_def)
qed

lemma word_less_unat: "(x::u32) < y \<Longrightarrow> unat x < unat y"
  by (simp add: word_less_nat_alt)

lemma b_write_inside:
  assumes ok: "builder_ok b"
    and r: "r < height (b_size b)" and c: "c < width (b_size b)"
  shows "b_write b \<lparr>row = r, column = c\<rparr> v =
           Some (b\<lparr>buffer := upd4 (buffer b)
                    (4 * (unat r * unat (width (b_size b)) + unat c)) v\<rparr>)"
proof -
  let ?w = "width (b_size b)" and ?h = "height (b_size b)"
  have ur: "unat r < unat ?h" and uc: "unat c < unat ?w"
    using r c by (simp_all add: word_less_nat_alt)
  have p: "4 * (unat ?w * unat ?h) < 2 ^ 32"
    and len: "length (buffer b) = 4 * (unat ?w * unat ?h)"
    using ok by (simp_all add: builder_ok_def)
  have small: "unat r < 2 ^ 30" "unat c < 2 ^ 30"
    using dims_small [OF ur uc p] by simp_all
  have sr: "0 \<le> sint r" and sc: "0 \<le> sint c"
    using small by (simp_all add: sint_nonneg_iff)
  define n where "n = unat r * unat ?w + unat c"
  have off: "unat (r * ?w * 4 + c * 4 + k) = 4 * n + unat k" if "unat k < 4" for k
    unfolding n_def using ur uc p that by (rule unat_offset)
  have o0: "unat (r * ?w * 4 + c * 4) = 4 * n"
    using off [of 0] by simp
  have o1: "unat (r * ?w * 4 + c * 4 + 1) = 4 * n + 1"
    using off [of 1] by simp
  have o2: "unat (r * ?w * 4 + c * 4 + 2) = 4 * n + 2"
    using off [of 2] by simp
  have o3: "unat (r * ?w * 4 + c * 4 + 3) = 4 * n + 3"
    using off [of 3] by simp
  have "n < unat ?w * unat ?h"
    unfolding n_def using ur uc by (rule index_bound)
  then have inb: "4 * n + 3 < length (buffer b)"
    using len by linarith
  show ?thesis
    using r c sr sc inb
    by (simp add: b_write_def Let_def o0 o1 o2 o3 upd4_def n_def [symmetric])
qed

lemma b_write_outside:
  assumes "\<not> (0 \<le> sint r \<and> r < height (b_size b))"
  shows "b_write b \<lparr>row = r, column = c\<rparr> v = Some b"
  using assms by (auto simp add: b_write_def)

lemma b_at_inside:
  assumes ok: "builder_ok b"
    and r: "r < height (b_size b)" and c: "c < width (b_size b)"
  shows "b_at b \<lparr>row = r, column = c\<rparr> =
           Some (pixel_at (buffer b) (4 * (unat r * unat (width (b_size b)) + unat c)))"
proof -
  let ?w = "width (b_size b)" and ?h = "height (b_size b)"
  have ur: "unat r < unat ?h" and uc: "unat c < unat ?w"
    using r c by (simp_all add: word_less_nat_alt)
  have p: "4 * (unat ?w * unat ?h) < 2 ^ 32"
    and len: "length (buffer b) = 4 * (unat ?w * unat ?h)"
    using ok by (simp_all add: builder_ok_def)
  define n where "n = unat r * unat ?w + unat c"
  have o0: "unat (r * ?w * 4 + c * 4) = 4 * n"
    using unat_offset [OF ur uc p, of 0] by (simp add: n_def)
  have "n < unat ?w * unat ?h"
    unfolding n_def using ur uc by (rule index_bound)
  then have inb: "4 * n + 3 < length (buffer b)"
    using len by linarith
  have nz: "?h \<noteq> 0" "?w \<noteq> 0"
    using r c by auto
  have m: "r mod ?h = r" "c mod ?w = c"
    using r c by (simp_all add: word_mod_less_divisor mod_word_less)
  show ?thesis
    using nz inb by (simp add: b_at_def Let_def m o0 pixel_at_def n_def [symmetric])
qed


lemma b_currentColor_ok:
  "builder_ok b \<Longrightarrow> b_currentColor b = Some (cur_color b)"
  by (simp add: b_currentColor_def palette_at_def builder_ok_def cur_color_def)

lemma pinned_iff:
  fixes sixel :: i8
  assumes "i < 6"
  shows "((scast sixel :: i32) AND push_bit i 1 \<noteq> 0) \<longleftrightarrow> bit sixel i"
proof -
  have "((scast sixel :: i32) AND push_bit i 1 \<noteq> 0) \<longleftrightarrow> bit (scast sixel :: i32) i"
    by (simp add: bit_iff_and_push_bit_not_eq_0)
  also have "\<dots> \<longleftrightarrow> bit sixel i"
    using assms by (simp add: bit_signed_iff min_def)
  finally show ?thesis .
qed

lemma render_pin_alt:
  assumes "i < 6"
  shows "render_pin i sixel b =
     (if bit sixel i
      then (case b_currentColor b of
              None \<Rightarrow> None
            | Some c \<Rightarrow> b_write b \<lparr>row = row (sixelCursor b) + of_nat i,
                                     column = column (sixelCursor b)\<rparr> c)
      else Some b)"
  unfolding render_pin_def Let_def pinned_iff [OF assms] by (rule refl)

lemma render_pin_eq:
  assumes ok: "builder_ok b" and c: "column (sixelCursor b) < width (b_size b)" and i: "i < 6"
  shows "render_pin i sixel b =
     Some (if bit sixel i \<and> row (sixelCursor b) + of_nat i < height (b_size b)
           then b\<lparr>buffer := upd4 (buffer b)
                  (4 * (unat (row (sixelCursor b) + of_nat i) * unat (width (b_size b))
                        + unat (column (sixelCursor b)))) (cur_color b)\<rparr>
           else b)"
proof (cases "bit sixel i")
  case False
  then show ?thesis
    by (simp add: render_pin_alt [OF i])
next
  case True
  show ?thesis
  proof (cases "row (sixelCursor b) + of_nat i < height (b_size b)")
    case inside: True
    show ?thesis
      using True inside i b_write_inside [OF ok inside c, of "cur_color b"]
      by (simp add: render_pin_alt [OF i] b_currentColor_ok [OF ok])
  next
    case outside: False
    then show ?thesis
      using True i b_write_outside [of "row (sixelCursor b) + of_nat i" b "column (sixelCursor b)" "cur_color b"]
      by (simp add: render_pin_alt [OF i] b_currentColor_ok [OF ok])
  qed
qed

lemma idx_eq_iff:
  assumes "c < width (b_size b)" "c' < width (b_size b)"
  shows "idx b r c = idx b r' c' \<longleftrightarrow> r = r' \<and> c = c'"
proof
  assume "idx b r c = idx b r' c'"
  then have "unat r * unat (width (b_size b)) + unat c = unat r' * unat (width (b_size b)) + unat c'"
    by (simp add: idx_def)
  from index_inj [OF _ _ this] assms
  have "unat r = unat r' \<and> unat c = unat c'"
    by (simp add: word_less_nat_alt)
  then show "r = r' \<and> c = c'"
    by (simp add: word_unat_eq_iff)
qed simp

lemma idx_in_buffer:
  assumes "builder_ok b" "r < height (b_size b)" "c < width (b_size b)"
  shows "idx b r c + 3 < length (buffer b)"
proof -
  have "unat r * unat (width (b_size b)) + unat c < unat (width (b_size b)) * unat (height (b_size b))"
    using assms(2,3) by (intro index_bound) (simp_all add: word_less_nat_alt)
  then show ?thesis
    using assms(1) by (simp add: builder_ok_def idx_def)
qed

text \<open>The effect of one turn of the loop on the pixels of the raster.\<close>

lemma render_pin_pixels:
  assumes ok: "builder_ok b" and c: "column (sixelCursor b) < width (b_size b)" and i: "i < 6"
  obtains b' where
    "render_pin i sixel b = Some b'"
    "b' = b\<lparr>buffer := buffer b'\<rparr>"
    "length (buffer b') = length (buffer b)"
    "\<And>r' c'. r' < height (b_size b) \<Longrightarrow> c' < width (b_size b) \<Longrightarrow>
       pixel_at (buffer b') (idx b r' c') =
         (if c' = column (sixelCursor b) \<and> bit sixel i \<and> r' = row (sixelCursor b) + of_nat i
          then opaque (cur_color b) else pixel_at (buffer b) (idx b r' c'))"
proof (cases "bit sixel i \<and> row (sixelCursor b) + of_nat i < height (b_size b)")
  case False
  show ?thesis
  proof (rule that [of b])
    show "render_pin i sixel b = Some b"
      using render_pin_eq [OF ok c i, of sixel] False by simp
    fix r' c' assume "r' < height (b_size b)" "c' < width (b_size b)"
    then show "pixel_at (buffer b) (idx b r' c') =
         (if c' = column (sixelCursor b) \<and> bit sixel i \<and> r' = row (sixelCursor b) + of_nat i
          then opaque (cur_color b) else pixel_at (buffer b) (idx b r' c'))"
      using False by auto
  qed simp_all
next
  case True
  let ?y = "row (sixelCursor b) + of_nat i"
  let ?x = "column (sixelCursor b)"
  let ?b' = "b\<lparr>buffer := upd4 (buffer b) (idx b ?y ?x) (cur_color b)\<rparr>"
  show ?thesis
  proof (rule that [of ?b'])
    show "render_pin i sixel b = Some ?b'"
      using render_pin_eq [OF ok c i, of sixel] True by (simp add: idx_def)
    show "?b' = b\<lparr>buffer := buffer ?b'\<rparr>" by simp
    show "length (buffer ?b') = length (buffer b)" by (simp add: length_upd4)
    fix r' c' assume r': "r' < height (b_size b)" and c': "c' < width (b_size b)"
    have inb: "4 * (unat ?y * unat (width (b_size b)) + unat ?x) + 3 < length (buffer b)"
      using idx_in_buffer [OF ok _ c, of ?y] True by (simp add: idx_def)
    have "pixel_at (upd4 (buffer b) (idx b ?y ?x) (cur_color b)) (idx b r' c') =
            (if idx b r' c' = idx b ?y ?x then opaque (cur_color b)
             else pixel_at (buffer b) (idx b r' c'))"
      using pixel_at_upd4 [OF inb, of "cur_color b" "unat r' * unat (width (b_size b)) + unat c'"]
      by (simp add: idx_def)
    then show "pixel_at (buffer ?b') (idx b r' c') =
         (if c' = column (sixelCursor b) \<and> bit sixel i \<and> r' = row (sixelCursor b) + of_nat i
          then opaque (cur_color b) else pixel_at (buffer b) (idx b r' c'))"
      using True idx_eq_iff [OF c' c, of r' ?y] by auto
  qed
qed


lemma builder_ok_buffer:
  assumes "builder_ok b" "length buf = length (buffer b)"
  shows "builder_ok (b\<lparr>buffer := buf\<rparr>)"
  using assms by (simp add: builder_ok_def)

lemma render_loop_pixels:
  assumes ok: "builder_ok b" and c: "column (sixelCursor b) < width (b_size b)" and k: "k \<le> 6"
  shows "\<exists>b'. render_loop k sixel b = Some b' \<and> b' = b\<lparr>buffer := buffer b'\<rparr>
           \<and> length (buffer b') = length (buffer b)
           \<and> (\<forall>r' c'. r' < height (b_size b) \<longrightarrow> c' < width (b_size b) \<longrightarrow>
                 pixel_at (buffer b') (idx b r' c') =
                   (if c' = column (sixelCursor b)
                       \<and> (\<exists>i. k \<le> i \<and> i < 6 \<and> bit sixel i \<and> r' = row (sixelCursor b) + of_nat i)
                    then opaque (cur_color b) else pixel_at (buffer b) (idx b r' c')))"
  using assms
proof (induction "6 - k" arbitrary: k b)
  case 0
  then have "k = 6" by simp
  then have "render_loop k sixel b = Some b"
    by simp
  then show ?case using \<open>k = 6\<close> by auto
next
  case (Suc n)
  then have k6: "k < 6" and n: "n = 6 - (k + 1)" and k1: "k + 1 \<le> 6" by simp_all
  obtain b1 where b1:
    "render_pin k sixel b = Some b1"
    "b1 = b\<lparr>buffer := buffer b1\<rparr>"
    "length (buffer b1) = length (buffer b)"
    "\<And>r' c'. r' < height (b_size b) \<Longrightarrow> c' < width (b_size b) \<Longrightarrow>
       pixel_at (buffer b1) (idx b r' c') =
         (if c' = column (sixelCursor b) \<and> bit sixel k \<and> r' = row (sixelCursor b) + of_nat k
          then opaque (cur_color b) else pixel_at (buffer b) (idx b r' c'))"
    using render_pin_pixels [OF Suc.prems(1,2) k6, of sixel] by blast
  have same: "b_size b1 = b_size b" "sixelCursor b1 = sixelCursor b"
    "cur_color b1 = cur_color b" "\<And>r c. idx b1 r c = idx b r c"
    by (subst b1(2), simp add: cur_color_def idx_def)+
  have ok1: "builder_ok b1"
    by (subst b1(2)) (rule builder_ok_buffer [OF Suc.prems(1) b1(3)])
  have c1: "column (sixelCursor b1) < width (b_size b1)"
    using Suc.prems(2) by (simp add: same)
  from Suc.hyps(1) [OF n ok1 c1 k1]
  obtain b2 where b2:
    "render_loop (k + 1) sixel b1 = Some b2"
    "b2 = b1\<lparr>buffer := buffer b2\<rparr>"
    "length (buffer b2) = length (buffer b1)"
    "\<And>r' c'. r' < height (b_size b) \<Longrightarrow> c' < width (b_size b) \<Longrightarrow>
       pixel_at (buffer b2) (idx b r' c') =
         (if c' = column (sixelCursor b)
             \<and> (\<exists>i. k + 1 \<le> i \<and> i < 6 \<and> bit sixel i \<and> r' = row (sixelCursor b) + of_nat i)
          then opaque (cur_color b) else pixel_at (buffer b1) (idx b r' c'))"
    unfolding same by blast
  have run: "render_loop k sixel b = Some b2"
    using k6 b1(1) b2(1) by (subst render_loop.simps) simp
  have fields: "b2 = b\<lparr>buffer := buffer b2\<rparr>"
    by (subst b2(2), subst b1(2)) simp
  have len: "length (buffer b2) = length (buffer b)"
    using b1(3) b2(3) by simp
  have px: "pixel_at (buffer b2) (idx b r' c') =
         (if c' = column (sixelCursor b)
             \<and> (\<exists>i. k \<le> i \<and> i < 6 \<and> bit sixel i \<and> r' = row (sixelCursor b) + of_nat i)
          then opaque (cur_color b) else pixel_at (buffer b) (idx b r' c'))"
    if r': "r' < height (b_size b)" and c': "c' < width (b_size b)" for r' c'
  proof -
    have split: "(\<exists>i. k \<le> i \<and> i < 6 \<and> bit sixel i \<and> r' = row (sixelCursor b) + of_nat i)
        \<longleftrightarrow> (bit sixel k \<and> r' = row (sixelCursor b) + of_nat k)
           \<or> (\<exists>i. k + 1 \<le> i \<and> i < 6 \<and> bit sixel i \<and> r' = row (sixelCursor b) + of_nat i)"
      (is "?A \<longleftrightarrow> ?B \<or> ?C")
    proof
      assume ?A
      then obtain i where i: "k \<le> i" "i < 6" "bit sixel i" "r' = row (sixelCursor b) + of_nat i"
        by blast
      show "?B \<or> ?C"
      proof (cases "i = k")
        case True
        then show ?thesis using i by simp
      next
        case False
        then have "k + 1 \<le> i" using i(1) by simp
        then show ?thesis using i by blast
      qed
    next
      assume "?B \<or> ?C"
      then show ?A
      proof
        assume ?B
        then show ?A using k6 by blast
      next
        assume ?C
        then obtain i where "k + 1 \<le> i" "i < 6" "bit sixel i" "r' = row (sixelCursor b) + of_nat i"
          by blast
        then have "k \<le> i \<and> i < 6 \<and> bit sixel i \<and> r' = row (sixelCursor b) + of_nat i"
          by simp
        then show ?A by blast
      qed
    qed
    define P where "P \<longleftrightarrow> c' = column (sixelCursor b) \<and> bit sixel k
        \<and> r' = row (sixelCursor b) + of_nat k"
    define Q where "Q \<longleftrightarrow> c' = column (sixelCursor b)
        \<and> (\<exists>i. k + 1 \<le> i \<and> i < 6 \<and> bit sixel i \<and> r' = row (sixelCursor b) + of_nat i)"
    have e1: "pixel_at (buffer b1) (idx b r' c') =
                (if P then opaque (cur_color b) else pixel_at (buffer b) (idx b r' c'))"
      unfolding P_def by (rule b1(4) [OF r' c'])
    have e2: "pixel_at (buffer b2) (idx b r' c') =
                (if Q then opaque (cur_color b) else pixel_at (buffer b1) (idx b r' c'))"
      unfolding Q_def by (rule b2(4) [OF r' c'])
    have pq: "c' = column (sixelCursor b)
             \<and> (\<exists>i. k \<le> i \<and> i < 6 \<and> bit sixel i \<and> r' = row (sixelCursor b) + of_nat i)
          \<longleftrightarrow> P \<or> Q"
      unfolding split P_def Q_def by blast
    show ?thesis
      unfolding pq e2 e1 by (cases P; cases Q; simp)
  qed
  show ?case
    using run fields len px by blast
qed


lemma render_outside:
  assumes "\<not> column (sixelCursor b) < width (b_size b)"
  shows "render sixel b = Some b"
  using assms by (simp add: render_def)

lemma render_inside:
  assumes ok: "builder_ok b" and c: "column (sixelCursor b) < width (b_size b)"
  obtains b' where
    "render sixel b = Some b'"
    "b' = b\<lparr>buffer := buffer b',
             sixelCursor := \<lparr>row = row (sixelCursor b), column = column (sixelCursor b) + 1\<rparr>\<rparr>"
    "length (buffer b') = length (buffer b)"
    "\<And>r' c'. r' < height (b_size b) \<Longrightarrow> c' < width (b_size b) \<Longrightarrow>
       pixel_at (buffer b') (idx b r' c') =
         (if c' = column (sixelCursor b)
             \<and> (\<exists>i<6. bit sixel i \<and> r' = row (sixelCursor b) + of_nat i)
          then opaque (cur_color b) else pixel_at (buffer b) (idx b r' c'))"
proof -
  from render_loop_pixels [OF ok c, of 0 sixel]
  obtain b1 where b1:
    "render_loop 0 sixel b = Some b1" "b1 = b\<lparr>buffer := buffer b1\<rparr>"
    "length (buffer b1) = length (buffer b)"
    "\<And>r' c'. r' < height (b_size b) \<Longrightarrow> c' < width (b_size b) \<Longrightarrow>
       pixel_at (buffer b1) (idx b r' c') =
         (if c' = column (sixelCursor b)
             \<and> (\<exists>i<6. bit sixel i \<and> r' = row (sixelCursor b) + of_nat i)
          then opaque (cur_color b) else pixel_at (buffer b) (idx b r' c'))"
    by auto
  let ?b' = "b1\<lparr>sixelCursor := (sixelCursor b1)\<lparr>column := column (sixelCursor b1) + 1\<rparr>\<rparr>"
  have cur: "sixelCursor b1 = sixelCursor b"
    by (subst b1(2)) simp
  show ?thesis
  proof (rule that [of ?b'])
    show "render sixel b = Some ?b'"
      using c b1(1) by (simp add: render_def)
    show "?b' = b\<lparr>buffer := buffer ?b',
             sixelCursor := \<lparr>row = row (sixelCursor b), column = column (sixelCursor b) + 1\<rparr>\<rparr>"
      by (subst (1 2) b1(2)) (simp add: cur)
    show "length (buffer ?b') = length (buffer b)"
      using b1(3) by simp
    fix r' c' assume "r' < height (b_size b)" "c' < width (b_size b)"
    then show "pixel_at (buffer ?b') (idx b r' c') =
         (if c' = column (sixelCursor b)
             \<and> (\<exists>i<6. bit sixel i \<and> r' = row (sixelCursor b) + of_nat i)
          then opaque (cur_color b) else pixel_at (buffer b) (idx b r' c'))"
      using b1(4) by simp
  qed
qed

lemma row_eq_iff:
  fixes r rw :: u32
  assumes r: "unat r < 2 ^ 31" and i: "i < 6"
  shows "r = rw + of_nat i \<longleftrightarrow> uint r = sint rw + int i"
proof
  assume "uint r = sint rw + int i"
  then have "word_of_int (uint r) = (word_of_int (sint rw + int i) :: 32 word)"
    by simp
  then show "r = rw + of_nat i"
    by simp
next
  assume e: "r = rw + of_nat i"
  have ur: "uint r < 2 ^ 31"
    using uint_lt_of_unat [OF r] by simp
  have ui: "uint (word_of_nat i :: 32 word) = int i"
  proof -
    have "unat (word_of_nat i :: 32 word) = i"
      using i by (simp add: unat_of_nat)
    then have "int (unat (word_of_nat i :: 32 word)) = int i"
      by (rule arg_cong)
    then show ?thesis by simp
  qed
  have "uint (rw + of_nat i) = (uint rw + int i) mod 2 ^ 32"
    by (simp add: uint_word_ariths ui)
  then have m: "uint r = (uint rw + int i) mod 2 ^ 32"
    using e by simp
  have rwb: "0 \<le> uint rw" "uint rw < 2 ^ 32"
    using uint_bounded [of rw] by simp_all
  show "uint r = sint rw + int i"
  proof (cases "unat rw < 2 ^ 31")
    case True
    then have s: "sint rw = uint rw"
      using sint_small [OF True] by simp
    have "uint rw < 2 ^ 31"
      using uint_lt_of_unat [OF True] by simp
    then have "(uint rw + int i) mod 2 ^ 32 = uint rw + int i"
      using i rwb by (intro mod_pos_pos_trivial) simp_all
    then show ?thesis using m s by simp
  next
    case False
    then have big: "2 ^ 31 \<le> unat rw" by simp
    then have s: "sint rw = uint rw - 2 ^ 32"
      using sint_big [OF big] by simp
    have ub: "2 ^ 31 \<le> uint rw"
    proof -
      have "int (2 ^ 31) \<le> int (unat rw)" using big by (rule iffD2 [OF of_nat_le_iff])
      then show ?thesis by simp
    qed
    show ?thesis
    proof (cases "uint rw + int i < 2 ^ 32")
      case True
      then have "(uint rw + int i) mod 2 ^ 32 = uint rw + int i"
        using rwb by (intro mod_pos_pos_trivial) simp_all
      then have "uint r = uint rw + int i" using m by simp
      then show ?thesis using ur ub by simp
    next
      case False
      then have "(uint rw + int i - 2 ^ 32) mod 2 ^ 32 = uint rw + int i - 2 ^ 32"
        using rwb i by (intro mod_pos_pos_trivial) simp_all
      moreover have "(uint rw + int i - 2 ^ 32) mod 2 ^ 32 = (uint rw + int i) mod 2 ^ 32"
        by (rule minus_mod_self2)
      ultimately have "(uint rw + int i) mod 2 ^ 32 = uint rw + int i - 2 ^ 32"
        by simp
      then show ?thesis using m s by simp
    qed
  qed
qed

lemma word_less_iff_sint:
  fixes c w :: u32
  assumes "0 \<le> sint c"
  shows "c < w \<longleftrightarrow> sint c < int (unat w)"
proof -
  have "unat c < 2 ^ 31" using assms by (simp add: sint_nonneg_iff)
  then have "sint c = int (unat c)" by (rule sint_small)
  then show ?thesis by (simp add: word_less_def)
qed

lemma clamp_0: "clamp v 0 hi = (if hi < v then hi else v)"
  by (simp add: clamp_def)

lemma setRaster_fields:
  "sixelCursor (setRaster b pan pad s) = sixelCursor b"
  "currentColor (setRaster b pan pad s) = currentColor b"
  "colors (setRaster b pan pad s) = colors b"
  "b_maxSize (setRaster b pan pad s) = b_maxSize b"
  "aspectRatio (setRaster b pan pad s) = \<lparr>nominator = pan, denominator = pad\<rparr>"
  "b_size (setRaster b pan pad s) =
     \<lparr>width = clamp (width s) 0 (width (b_maxSize b)),
      height = clamp (height s) 0 (height (b_maxSize b))\<rparr>"
  "length (buffer (setRaster b pan pad s)) =
     unat (clamp (width s) 0 (width (b_maxSize b)) * clamp (height s) 0 (height (b_maxSize b)) * 4)"
  by (simp_all add: setRaster_def Let_def length_resize)

lemma setRaster_length_exact:
  assumes "4 * (unat (width (b_maxSize b)) * unat (height (b_maxSize b))) < 2 ^ 32"
  shows "length (buffer (setRaster b pan pad s)) =
           4 * (unat (clamp (width s) 0 (width (b_maxSize b)))
                * unat (clamp (height s) 0 (height (b_maxSize b))))"
proof -
  let ?w = "clamp (width s) 0 (width (b_maxSize b))"
  let ?h = "clamp (height s) 0 (height (b_maxSize b))"
  have w: "unat ?w \<le> unat (width (b_maxSize b))"
    by (simp add: clamp_0 word_less_nat_alt)
  have h: "unat ?h \<le> unat (height (b_maxSize b))"
    by (simp add: clamp_0 word_less_nat_alt)
  have "unat ?w * unat ?h \<le> unat (width (b_maxSize b)) * unat (height (b_maxSize b))"
    using w h by (rule mult_le_mono)
  then have b: "unat ?w * unat ?h * 4 < 2 ^ 32"
    using assms by linarith
  have "?w * ?h * 4 = word_of_nat (unat ?w * unat ?h * 4)"
    by simp
  then have "unat (?w * ?h * 4) = (unat ?w * unat ?h * 4) mod 2 ^ 32"
    by (simp only: unat_of_nat) simp
  also have "\<dots> = unat ?w * unat ?h * 4"
    using b by (intro mod_less) simp
  finally show ?thesis
    by (simp add: setRaster_fields)
qed

lemma apply_renders_outside:
  assumes "\<not> column (sixelCursor b) < width (b_size b)"
  shows "apply_events (map Render sixels) b = Some b"
  using assms by (induction sixels) (simp_all add: render_outside)

lemma setColor_length_inside:
  assumes "unat i < length (palette p)"
  shows "length (palette (palette_setColor p i c)) = length (palette p)"
  using assms by (simp add: palette_setColor_def palette_size_def Let_def)

lemma uint_lt_2p31:
  fixes x :: u32
  assumes "unat x < 2 ^ 31"
  shows "uint x < 2 ^ 31"
  using uint_lt_of_unat [OF assms] by simp

lemma unat_lt_2p31:
  fixes x :: u32
  assumes "uint x < 2 ^ 31"
  shows "unat x < 2 ^ 31"
proof -
  have "int (unat x) < int (2 ^ 31)"
    using assms by simp
  then show ?thesis
    unfolding of_nat_less_iff .
qed

lemma uint_add_small:
  fixes x :: u32
  assumes "uint x + k < 2 ^ 32" "0 \<le> k"
  shows "uint (x + word_of_int k) = uint x + k"
proof -
  have "uint (x + word_of_int k) = (uint x + k) mod 2 ^ 32"
    by (simp add: uint_word_ariths uint_word_of_int take_bit_eq_mod mod_simps)
  also have "\<dots> = uint x + k"
    using assms by (intro mod_pos_pos_trivial) simp_all
  finally show ?thesis .
qed

lemma render_keeps_inv:
  assumes ok: "builder_ok b" and inv: "cursor_inv b"
  shows "\<exists>b'. render sixel b = Some b' \<and> builder_ok b' \<and> cursor_inv b' \<and> b_size b' = b_size b"
proof (cases "column (sixelCursor b) < width (b_size b)")
  case False
  then show ?thesis
    using ok inv by (simp add: render_outside)
next
  case True
  obtain b' where b':
    "render sixel b = Some b'"
    "b' = b\<lparr>buffer := buffer b',
             sixelCursor := \<lparr>row = row (sixelCursor b), column = column (sixelCursor b) + 1\<rparr>\<rparr>"
    "length (buffer b') = length (buffer b)"
    by (rule render_inside [OF ok True, of sixel])
  have f: "b_size b' = b_size b" "row (sixelCursor b') = row (sixelCursor b)"
    "column (sixelCursor b') = column (sixelCursor b) + 1" "colors b' = colors b"
    by (subst b'(2), simp)+
  have ok': "builder_ok b'"
    using ok b'(3) by (simp add: builder_ok_def f)
  have w31: "uint (width (b_size b)) < 2 ^ 31"
    using ok by (intro uint_lt_2p31) (simp add: builder_ok_def)
  have lt: "uint (column (sixelCursor b)) < uint (width (b_size b))"
    using True by (simp add: word_less_def)
  have "uint (column (sixelCursor b) + word_of_int 1) = uint (column (sixelCursor b)) + 1"
    using lt w31 by (intro uint_add_small) simp_all
  then have "uint (column (sixelCursor b) + 1) \<le> uint (width (b_size b))"
    using lt by simp
  then have "cursor_inv b'"
    using inv by (simp add: cursor_inv_def f)
  then show ?thesis
    using b'(1) ok' f(1) by blast
qed

lemma rewind_keeps_inv:
  assumes ok: "builder_ok b" and inv: "cursor_inv b"
  shows "builder_ok (rewind b) \<and> cursor_inv (rewind b) \<and> b_size (rewind b) = b_size b"
  using assms by (simp add: rewind_def builder_ok_def cursor_inv_def)

lemma newline_keeps_inv:
  assumes ok: "builder_ok b" and inv: "cursor_inv b"
  shows "builder_ok (newline b) \<and> cursor_inv (newline b) \<and> b_size (newline b) = b_size b"
proof -
  let ?r = "row (sixelCursor b)"
  have h31: "uint (height (b_size b)) < 2 ^ 31"
    using ok by (intro uint_lt_2p31) (simp add: builder_ok_def)
  have rh: "uint ?r \<le> uint (height (b_size b))" and m: "uint ?r mod 6 = 0"
    using inv by (simp_all add: cursor_inv_def)
  have "uint (?r + word_of_int 6) = uint ?r + 6"
    using rh h31 by (intro uint_add_small) simp_all
  then have u6: "uint (?r + 6) = uint ?r + 6"
    by simp
  have m6: "(uint ?r + 6) mod 6 = 0"
    using m by presburger
  have ok': "builder_ok (newline b)"
    using ok by (simp add: newline_def Let_def builder_ok_def)
  have "cursor_inv (newline b)"
    using inv m6 by (simp add: newline_def Let_def cursor_inv_def word_less_def u6)
  then show ?thesis
    using ok' by (simp add: newline_def Let_def)
qed

lemma cursor_event_keeps_inv:
  assumes "builder_ok b" "cursor_inv b" "cursor_event e"
  shows "\<exists>b'. apply_event e b = Some b' \<and> builder_ok b' \<and> cursor_inv b' \<and> b_size b' = b_size b"
  using assms
  by (cases e) (simp_all add: render_keeps_inv rewind_keeps_inv newline_keeps_inv)

lemma cursor_events_keep_inv:
  assumes "builder_ok b" "cursor_inv b" "list_all cursor_event evs"
  shows "\<exists>b'. apply_events evs b = Some b' \<and> builder_ok b' \<and> cursor_inv b' \<and> b_size b' = b_size b"
  using assms
proof (induction evs arbitrary: b)
  case Nil
  then show ?case by simp
next
  case (Cons e evs)
  then have "cursor_event e" and rest: "list_all cursor_event evs" by simp_all
  from cursor_event_keeps_inv [OF Cons.prems(1,2) this(1)]
  obtain b1 where b1: "apply_event e b = Some b1" "builder_ok b1" "cursor_inv b1"
    "b_size b1 = b_size b"
    by blast
  from Cons.IH [OF b1(2,3) rest]
  obtain b2 where "apply_events evs b1 = Some b2" "builder_ok b2" "cursor_inv b2"
    "b_size b2 = b_size b1"
    by blast
  then show ?case using b1 by simp
qed

section \<open>Parser and scenario: lemmas\<close>

declare repeat_loop.simps [simp del]


lemma repeat_loop_replicate:
  "repeat_loop i n sixel evs = evs @ replicate (n - i) (Render sixel)"
proof (induction i n sixel evs rule: repeat_loop.induct)
  case (1 i n sixel evs)
  show ?case
  proof (cases "i < n")
    case True
    then have "n - i = Suc (n - (i + 1))" by simp
    then show ?thesis
      using True 1 by (subst repeat_loop.simps) (simp add: replicate_app_Cons_same)
  next
    case False
    then show ?thesis by (subst repeat_loop.simps) simp
  qed
qed

lemma not_digit_of_sixel: "isSixel v \<Longrightarrow> \<not> isDigit v"
  by (auto simp add: isSixel_def isDigit_def word_le_nat_alt)

lemma transitionTo_Ground_Repeat:
  "state p = RepeatIntroducer \<Longrightarrow> transitionTo p Ground = Some (p\<lparr>state := Ground\<rparr>, [])"
  by (simp add: transitionTo_def leaveState_def enterState_def)

lemma parse_repeat:
  assumes "state p = RepeatIntroducer" "params p \<noteq> []" "isSixel v"
  shows "parse p v = Some (p\<lparr>state := Ground\<rparr>,
                           replicate (unat (params p ! 0)) (Render (toSixel v)))"
  using assms
  by (simp add: parse_def not_digit_of_sixel transitionTo_Ground_Repeat repeat_loop_replicate)

lemma parse_scenario:
  "parse_all new_SixelParser [35, 50, 33, 52, 78] =
     Some (\<lparr>state = Ground, params = [4]\<rparr>,
           [UseColor 2, Render 15, Render 15, Render 15, Render 15])"
proof -
  have 1: "parse new_SixelParser 35 = Some (\<lparr>state = ColorIntroducer, params = [0]\<rparr>, [])"
    by (simp add: parse_def new_SixelParser_def fallback_def transitionTo_def leaveState_def
        enterState_def)
  have 2: "parse \<lparr>state = ColorIntroducer, params = [0]\<rparr> 50
             = Some (\<lparr>state = ColorParam, params = [2]\<rparr>, [])"
    by (simp add: parse_def isDigit_def toDigit_def paramShiftAndAddDigit_def transitionTo_def
        leaveState_def enterState_def)
  have 3: "parse \<lparr>state = ColorParam, params = [2]\<rparr> 33
             = Some (\<lparr>state = RepeatIntroducer, params = [0]\<rparr>, [UseColor 2])"
    by (simp add: parse_def isDigit_def fallback_def transitionTo_def leaveState_def
        enterState_def)
  have 4: "parse \<lparr>state = RepeatIntroducer, params = [0]\<rparr> 52
             = Some (\<lparr>state = RepeatIntroducer, params = [4]\<rparr>, [])"
    by (simp add: parse_def isDigit_def toDigit_def paramShiftAndAddDigit_def)
  have 5: "parse \<lparr>state = RepeatIntroducer, params = [4]\<rparr> 78
             = Some (\<lparr>state = Ground, params = [4]\<rparr>, replicate 4 (Render 15))"
    using parse_repeat [of "\<lparr>state = RepeatIntroducer, params = [4]\<rparr>" 78]
    by (simp add: isSixel_def toSixel_def)
  have r4: "replicate 4 (Render 15) = [Render 15, Render 15, Render 15, Render 15]"
    by (simp add: numeral_eq_Suc)
  show ?thesis
    by (simp add: 1 2 3 4 5 r4)
qed

lemma clear_loop_spec:
  assumes "p + 4 * n \<le> length buf"
  shows "\<exists>buf'. clear_loop n p c buf = Some buf' \<and> length buf' = length buf
           \<and> (\<forall>j<n. pixel_at buf' (p + 4 * j) = c)
           \<and> (\<forall>k<p. buf' ! k = buf ! k)"
  using assms
proof (induction n arbitrary: p buf)
  case 0
  then show ?case by simp
next
  case (Suc n)
  let ?buf1 = "buf[p := rgba_red c, p + 1 := rgba_green c, p + 2 := rgba_blue c,
                   p + 3 := rgba_alpha c]"
  have inb: "p + 3 < length buf" using Suc.prems by simp
  have "p + 4 + 4 * n \<le> length ?buf1" using Suc.prems by simp
  from Suc.IH [OF this]
  obtain buf' where b: "clear_loop n (p + 4) c ?buf1 = Some buf'" "length buf' = length ?buf1"
    "\<forall>j<n. pixel_at buf' (p + 4 + 4 * j) = c" "\<forall>k<p + 4. buf' ! k = ?buf1 ! k"
    by blast
  have run: "clear_loop (Suc n) p c buf = Some buf'"
    using inb b(1) by simp
  have first: "pixel_at buf' p = c"
    using b(4) inb by (simp add: pixel_at_def)
  have px: "pixel_at buf' (p + 4 * j) = c" if "j < Suc n" for j
  proof (cases j)
    case 0
    then show ?thesis using first by simp
  next
    case (Suc j')
    then have "j' < n" using that by simp
    then have "pixel_at buf' (p + 4 + 4 * j') = c" using b(3) by blast
    then show ?thesis using Suc by (simp add: add.assoc)
  qed
  have low: "buf' ! k = buf ! k" if "k < p" for k
    using b(4) that by simp
  show ?case
    using run b(2) px low by simp
qed

lemma unat_area:
  fixes w h :: u32
  assumes "4 * (unat w * unat h) < 2 ^ 32"
  shows "unat (w * h) = unat w * unat h" "unat (w * h * 4) = 4 * (unat w * unat h)"
proof -
  have "unat w * unat h < 2 ^ 32" using assms by linarith
  then show a: "unat (w * h) = unat w * unat h"
    by (simp add: unat_mult_lem [THEN iffD1])
  have "unat (w * h) * unat (4 :: u32) < 2 ^ 32"
    using assms a by simp
  then have "unat (w * h * 4) = unat (w * h) * unat (4 :: u32)"
    by (simp add: unat_mult_lem [THEN iffD1])
  then show "unat (w * h * 4) = 4 * (unat w * unat h)"
    using a by simp
qed

lemma new_builder_spec:
  assumes area: "4 * (unat (width maxSz) * unat (height maxSz)) < 2 ^ 32"
    and w31: "unat (width maxSz) < 2 ^ 31" and h31: "unat (height maxSz) < 2 ^ 31"
    and pal: "palette pal \<noteq> []"
  shows "\<exists>b. new_SixelImageBuilder maxSz av ah bg pal = Some b \<and> builder_ok b
           \<and> sixelCursor b = \<lparr>row = 0, column = 0\<rparr> \<and> b_size b = maxSz \<and> colors b = pal
           \<and> (\<forall>r c. r < height maxSz \<longrightarrow> c < width maxSz \<longrightarrow>
                 pixel_at (buffer b) (idx b r c) = bg)"
proof -
  let ?n = "unat (width maxSz) * unat (height maxSz)"
  let ?buf0 = "replicate (unat (width maxSz * height maxSz * 4)) (0 :: u8)"
  have len0: "length ?buf0 = 4 * ?n"
    using unat_area(2) [OF area] by simp
  have "0 + 4 * ?n \<le> length ?buf0"
    using len0 by simp
  from clear_loop_spec [OF this, of bg]
  obtain buf' where b: "clear_loop ?n 0 bg ?buf0 = Some buf'" "length buf' = length ?buf0"
    "\<forall>j<?n. pixel_at buf' (0 + 4 * j) = bg"
    by blast
  let ?b = "\<lparr>b_maxSize = maxSz, colors = pal, b_size = maxSz, buffer = buf',
            sixelCursor = \<lparr>row = 0, column = 0\<rparr>, currentColor = 0,
            aspectRatio = \<lparr>nominator = av, denominator = ah\<rparr>\<rparr>"
  have run: "new_SixelImageBuilder maxSz av ah bg pal = Some ?b"
    using b(1) by (simp add: new_SixelImageBuilder_def clear_def unat_area(1) [OF area])
  have ok: "builder_ok ?b"
    using b(2) len0 area w31 h31 pal by (simp add: builder_ok_def)
  have px: "pixel_at (buffer ?b) (idx ?b r c) = bg"
    if "r < height maxSz" "c < width maxSz" for r c
  proof -
    have "unat r * unat (width maxSz) + unat c < ?n"
      using that by (intro index_bound) (simp_all add: word_less_nat_alt)
    then have "pixel_at buf' (0 + 4 * (unat r * unat (width maxSz) + unat c)) = bg"
      using b(3) by blast
    then show ?thesis
      unfolding idx_def by simp
  qed
  show ?thesis
    using run ok px by (intro exI [of _ ?b]) simp
qed


lemma renders_spec:
  assumes ok: "builder_ok b"
    and fit: "unat (column (sixelCursor b)) + n \<le> unat (width (b_size b))"
  shows "\<exists>b'. apply_events (replicate n (Render sixel)) b = Some b'
           \<and> b' = b\<lparr>buffer := buffer b',
                     sixelCursor := \<lparr>row = row (sixelCursor b),
                                     column = column (sixelCursor b) + of_nat n\<rparr>\<rparr>
           \<and> length (buffer b') = length (buffer b)
           \<and> (\<forall>r' c'. r' < height (b_size b) \<longrightarrow> c' < width (b_size b) \<longrightarrow>
                 pixel_at (buffer b') (idx b r' c') =
                   (if unat (column (sixelCursor b)) \<le> unat c'
                       \<and> unat c' < unat (column (sixelCursor b)) + n
                       \<and> (\<exists>i<6. bit sixel i \<and> r' = row (sixelCursor b) + of_nat i)
                    then opaque (cur_color b) else pixel_at (buffer b) (idx b r' c')))"
  using assms
proof (induction n arbitrary: b)
  case 0
  have "b = b\<lparr>buffer := buffer b,
               sixelCursor := \<lparr>row = row (sixelCursor b), column = column (sixelCursor b) + of_nat 0\<rparr>\<rparr>"
    by simp
  then show ?case
    by (intro exI [of _ b]) auto
next
  case (Suc n)
  let ?col = "column (sixelCursor b)" and ?row = "row (sixelCursor b)"
  have ulen: "unat ?col < unat (width (b_size b))"
    using Suc.prems(2) by simp
  then have c: "?col < width (b_size b)"
    by (simp add: word_less_nat_alt)
  obtain b1 where b1:
    "render sixel b = Some b1"
    "b1 = b\<lparr>buffer := buffer b1, sixelCursor := \<lparr>row = ?row, column = ?col + 1\<rparr>\<rparr>"
    "length (buffer b1) = length (buffer b)"
    "\<And>r' c'. r' < height (b_size b) \<Longrightarrow> c' < width (b_size b) \<Longrightarrow>
       pixel_at (buffer b1) (idx b r' c') =
         (if c' = ?col \<and> (\<exists>i<6. bit sixel i \<and> r' = ?row + of_nat i)
          then opaque (cur_color b) else pixel_at (buffer b) (idx b r' c'))"
    using render_inside [OF Suc.prems(1) c, of sixel] by blast
  have same: "b_size b1 = b_size b" "row (sixelCursor b1) = ?row"
    "column (sixelCursor b1) = ?col + 1" "colors b1 = colors b"
    "cur_color b1 = cur_color b" "\<And>r c. idx b1 r c = idx b r c"
    by (subst b1(2), simp add: cur_color_def idx_def)+
  have ok1: "builder_ok b1"
    using Suc.prems(1) b1(3) by (simp add: builder_ok_def same)
  have u1: "unat (?col + 1) = unat ?col + 1"
  proof -
    have "unat ?col + unat (1 :: u32) < 2 ^ 32"
      using ulen unsigned_less [of "width (b_size b)", where 'a = nat] by simp
    then have "unat (?col + 1) = unat ?col + unat (1 :: u32)"
      by (simp add: unat_add_lem [THEN iffD1])
    then show ?thesis by simp
  qed
  have fit1: "unat (column (sixelCursor b1)) + n \<le> unat (width (b_size b1))"
    using Suc.prems(2) by (simp add: same u1)
  from Suc.IH [OF ok1 fit1]
  obtain b2 where b2:
    "apply_events (replicate n (Render sixel)) b1 = Some b2"
    "b2 = b1\<lparr>buffer := buffer b2,
              sixelCursor := \<lparr>row = row (sixelCursor b1),
                              column = column (sixelCursor b1) + of_nat n\<rparr>\<rparr>"
    "length (buffer b2) = length (buffer b1)"
    "\<forall>r' c'. r' < height (b_size b1) \<longrightarrow> c' < width (b_size b1) \<longrightarrow>
       pixel_at (buffer b2) (idx b1 r' c') =
         (if unat (column (sixelCursor b1)) \<le> unat c'
             \<and> unat c' < unat (column (sixelCursor b1)) + n
             \<and> (\<exists>i<6. bit sixel i \<and> r' = row (sixelCursor b1) + of_nat i)
          then opaque (cur_color b1) else pixel_at (buffer b1) (idx b1 r' c'))"
    by blast
  have run: "apply_events (replicate (Suc n) (Render sixel)) b = Some b2"
    using b1(1) b2(1) by simp
  have fields: "b2 = b\<lparr>buffer := buffer b2,
                         sixelCursor := \<lparr>row = ?row, column = ?col + of_nat (Suc n)\<rparr>\<rparr>"
    by (subst b2(2), subst (1 2 3) b1(2)) (simp add: add.assoc add.commute)
  have len: "length (buffer b2) = length (buffer b)"
    using b1(3) b2(3) by simp
  have px: "pixel_at (buffer b2) (idx b r' c') =
         (if unat ?col \<le> unat c' \<and> unat c' < unat ?col + Suc n
             \<and> (\<exists>i<6. bit sixel i \<and> r' = ?row + of_nat i)
          then opaque (cur_color b) else pixel_at (buffer b) (idx b r' c'))"
    if r': "r' < height (b_size b)" and c': "c' < width (b_size b)" for r' c'
  proof -
    define E where "E \<longleftrightarrow> (\<exists>i<6. bit sixel i \<and> r' = ?row + of_nat i)"
    define P where "P \<longleftrightarrow> c' = ?col \<and> E"
    define Q where "Q \<longleftrightarrow> unat ?col + 1 \<le> unat c' \<and> unat c' < unat ?col + 1 + n \<and> E"
    have e1: "pixel_at (buffer b1) (idx b r' c') =
                (if P then opaque (cur_color b) else pixel_at (buffer b) (idx b r' c'))"
      unfolding P_def E_def by (rule b1(4) [OF r' c'])
    have e2: "pixel_at (buffer b2) (idx b r' c') =
                (if Q then opaque (cur_color b) else pixel_at (buffer b1) (idx b r' c'))"
      using b2(4) [rule_format, of r' c'] r' c' unfolding Q_def E_def same u1 by simp
    have ceq: "c' = ?col \<longleftrightarrow> unat c' = unat ?col"
      by (simp add: word_unat_eq_iff)
    have pq: "unat ?col \<le> unat c' \<and> unat c' < unat ?col + Suc n \<and> E \<longleftrightarrow> P \<or> Q"
      unfolding P_def Q_def ceq by auto
    show ?thesis
      unfolding E_def [symmetric] pq e2 e1 by (cases P; cases Q; simp)
  qed
  show ?case
    using run fields len px by blast
qed


lemma apply_events_append:
  "apply_events (es @ fs) b =
     (case apply_events es b of None \<Rightarrow> None | Some b' \<Rightarrow> apply_events fs b')"
  by (induction es arbitrary: b) (simp_all split: option.split)

lemma bit_15: "bit (15 :: i8) i \<longleftrightarrow> i < 4"
proof -
  have m: "(15 :: i8) = mask 4"
    by (simp add: mask_eq_exp_minus_1)
  show ?thesis
    unfolding m by (auto simp add: bit_mask_iff)
qed

lemma of_nat_eq_small:
  fixes r :: u32
  assumes "i < 6"
  shows "r = of_nat i \<longleftrightarrow> unat r = i"
proof
  assume "r = of_nat i"
  then show "unat r = i"
    using assms by (simp add: unat_of_nat)
next
  assume "unat r = i"
  then have "of_nat (unat r) = (of_nat i :: u32)"
    by simp
  then show "r = of_nat i"
    by simp
qed

lemma scenario_repeat:
  assumes w: "4 \<le> unat (width maxSz)" and h: "6 \<le> unat (height maxSz)"
    and area: "4 * (unat (width maxSz) * unat (height maxSz)) < 2 ^ 32"
    and pal: "2 < length (palette pal)"
  shows "\<exists>b0 b'. new_SixelImageBuilder maxSz av ah bg pal = Some b0
           \<and> apply_events [UseColor 2, Render 15, Render 15, Render 15, Render 15] b0 = Some b'
           \<and> (\<forall>r c. r < 4 \<and> c < 4 \<longrightarrow>
                 b_at b' \<lparr>row = r, column = c\<rparr> = Some (opaque (palette pal ! 2)))
           \<and> (\<forall>r c. 4 \<le> r \<and> r < 6 \<and> c < 4 \<longrightarrow>
                 b_at b' \<lparr>row = r, column = c\<rparr> = Some bg)"
proof -
  let ?W = "unat (width maxSz)" and ?H = "unat (height maxSz)"
  have "0 < ?W" "0 < ?H" using w h by simp_all
  then have small: "?H - 1 < 2 ^ 30" "?W - 1 < 2 ^ 30"
    using dims_small [of "?H - 1" ?H "?W - 1" ?W] area by simp_all
  then have w31: "?W < 2 ^ 31" and h31: "?H < 2 ^ 31"
    by simp_all
  have pne: "palette pal \<noteq> []"
    using pal by (cases "palette pal") simp_all
  from new_builder_spec [OF area w31 h31 pne, of av ah bg]
  obtain b0 where b0: "new_SixelImageBuilder maxSz av ah bg pal = Some b0" "builder_ok b0"
    "sixelCursor b0 = \<lparr>row = 0, column = 0\<rparr>" "b_size b0 = maxSz" "colors b0 = pal"
    "\<forall>r c. r < height maxSz \<longrightarrow> c < width maxSz \<longrightarrow> pixel_at (buffer b0) (idx b0 r c) = bg"
    by blast
  let ?b1 = "b0\<lparr>currentColor := 2\<rparr>"
  have m2: "(2 :: nat) mod length (palette pal) = 2"
    using pal by simp
  have use: "useColor b0 2 = Some ?b1"
    using pne by (simp add: useColor_def palette_size_def b0(5) m2)
  have ok1: "builder_ok ?b1"
    using b0(2) by (simp add: builder_ok_def)
  have col1: "cur_color ?b1 = palette pal ! 2"
    by (simp add: cur_color_def b0(5) m2)
  have fit: "unat (column (sixelCursor ?b1)) + 4 \<le> unat (width (b_size ?b1))"
    using w by (simp add: b0(3,4))
  from renders_spec [OF ok1 fit, of 15]
  obtain b' where b':
    "apply_events (replicate 4 (Render 15)) ?b1 = Some b'"
    "b' = ?b1\<lparr>buffer := buffer b',
               sixelCursor := \<lparr>row = row (sixelCursor ?b1),
                               column = column (sixelCursor ?b1) + of_nat 4\<rparr>\<rparr>"
    "length (buffer b') = length (buffer ?b1)"
    "\<forall>r' c'. r' < height (b_size ?b1) \<longrightarrow> c' < width (b_size ?b1) \<longrightarrow>
       pixel_at (buffer b') (idx ?b1 r' c') =
         (if unat (column (sixelCursor ?b1)) \<le> unat c'
             \<and> unat c' < unat (column (sixelCursor ?b1)) + 4
             \<and> (\<exists>i<6. bit (15 :: i8) i \<and> r' = row (sixelCursor ?b1) + of_nat i)
          then opaque (cur_color ?b1) else pixel_at (buffer ?b1) (idx ?b1 r' c'))"
    by blast
  have r4: "replicate 4 (Render 15) = [Render 15, Render 15, Render 15, Render 15]"
    by (simp add: numeral_eq_Suc)
  have run: "apply_events [UseColor 2, Render 15, Render 15, Render 15, Render 15] b0 = Some b'"
    using use b'(1) unfolding r4 by simp
  have sz': "b_size b' = maxSz" and cl': "colors b' = pal"
    by (subst b'(2), simp add: b0(4,5))+
  have ok': "builder_ok b'"
    using ok1 b'(3) by (simp add: builder_ok_def sz' cl' b0(4,5))
  have idx': "idx b' r c = idx ?b1 r c" for r c
    by (simp add: idx_def sz' b0(4))
  have px: "pixel_at (buffer b') (idx b' r c) =
              (if unat c < 4 \<and> unat r < 4 then opaque (palette pal ! 2) else bg)"
    if r: "r < height maxSz" and c: "c < width maxSz" for r c
  proof -
    have e: "(\<exists>i<6. bit (15 :: i8) i \<and> r = 0 + of_nat i) \<longleftrightarrow> unat r < 4"
    proof
      assume "\<exists>i<6. bit (15 :: i8) i \<and> r = 0 + of_nat i"
      then obtain i where i: "i < 6" "bit (15 :: i8) i" "r = 0 + of_nat i"
        by blast
      have "i < 4"
        using i(2) by (rule bit_15 [THEN iffD1])
      moreover have "unat r = i"
        using i(3) of_nat_eq_small [OF i(1), of r] by simp
      ultimately show "unat r < 4"
        by simp
    next
      assume a: "unat r < 4"
      have "unat r < 6"
        using a by simp
      moreover have "bit (15 :: i8) (unat r)"
        using a by (rule bit_15 [THEN iffD2])
      moreover have "r = 0 + of_nat (unat r)"
        by simp
      ultimately show "\<exists>i<6. bit (15 :: i8) i \<and> r = 0 + of_nat i"
        by blast
    qed
    have old: "pixel_at (buffer b0) (idx ?b1 r c) = bg"
      using b0(6) r c by (simp add: idx_def b0(4))
    have r1: "r < height (b_size ?b1)" and c1: "c < width (b_size ?b1)"
      using r c by (simp_all add: b0(4))
    have row0: "row (sixelCursor ?b1) = 0"
      by (simp add: b0(3))
    define E where "E \<longleftrightarrow> (\<exists>i<6. bit (15 :: i8) i \<and> r = row (sixelCursor ?b1) + of_nat i)"
    have eE: "E \<longleftrightarrow> unat r < 4"
      unfolding E_def row0 by (rule e)
    have "pixel_at (buffer b') (idx ?b1 r c) =
         (if unat (column (sixelCursor ?b1)) \<le> unat c
             \<and> unat c < unat (column (sixelCursor ?b1)) + 4 \<and> E
          then opaque (cur_color ?b1) else pixel_at (buffer ?b1) (idx ?b1 r c))"
      unfolding E_def by (rule b'(4) [rule_format, OF r1 c1])
    then show ?thesis
      unfolding eE by (simp add: idx' b0(3) col1 old)
  qed
  have at: "b_at b' \<lparr>row = r, column = c\<rparr> =
              Some (if unat c < 4 \<and> unat r < 4 then opaque (palette pal ! 2) else bg)"
    if r: "unat r < 6" and c: "unat c < 4" for r c
  proof -
    have r': "r < height maxSz" and c': "c < width maxSz"
      using r c w h by (simp_all add: word_less_nat_alt)
    show ?thesis
      using b_at_inside [OF ok', of r c] r' c' px [OF r' c']
      by (simp add: sz' idx_def)
  qed
  have top: "b_at b' \<lparr>row = r, column = c\<rparr> = Some (opaque (palette pal ! 2))"
    if "r < 4 \<and> c < 4" for r c
    using that at [of r c] by (simp add: word_less_nat_alt)
  have bottom: "b_at b' \<lparr>row = r, column = c\<rparr> = Some bg"
    if "4 \<le> r \<and> r < 6 \<and> c < 4" for r c
    using that at [of r c] by (simp add: word_less_nat_alt word_le_nat_alt)
  show ?thesis
    using b0(1) run top bottom by blast
qed

section \<open>Color conversion: lemmas\<close>

declare bitlen.simps [simp del]

lemma bitlen_0: "bitlen 0 = 0"
  by (simp add: bitlen.simps)

lemma bitlen_pos: "0 < n \<Longrightarrow> bitlen n = Suc (bitlen (n div 2))"
  by (subst bitlen.simps) simp

lemma bitlen_bounds:
  assumes "0 < n"
  shows "2 ^ (bitlen n - 1) \<le> n \<and> n < 2 ^ bitlen n"
  using assms
proof (induction n rule: bitlen.induct)
  case (1 n)
  show ?case
  proof (cases "n div 2 = 0")
    case True
    then have "n = 1" using 1(2) by (simp add: div_eq_0_iff)
    then show ?thesis by (simp add: bitlen_pos bitlen_0)
  next
    case False
    then have pos: "0 < n div 2" by simp
    have ih: "2 ^ (bitlen (n div 2) - 1) \<le> n div 2 \<and> n div 2 < 2 ^ bitlen (n div 2)"
      using 1(1) 1(2) pos by simp
    have bl: "bitlen n = Suc (bitlen (n div 2))"
      using 1(2) by (rule bitlen_pos)
    have bp: "0 < bitlen (n div 2)"
      using pos by (simp add: bitlen_pos)
    then have e: "2 ^ (bitlen n - 1) = 2 * 2 ^ (bitlen (n div 2) - 1)"
      unfolding bl by (cases "bitlen (n div 2)") simp_all
    have "2 * (n div 2) \<le> n" by simp
    then have lo: "2 ^ (bitlen n - 1) \<le> n"
      unfolding e using ih by linarith
    have "n < 2 * (n div 2) + 2" by linarith
    then have hi: "n < 2 ^ bitlen n"
      unfolding bl using ih by simp
    show ?thesis using lo hi by simp
  qed
qed

lemma bitlen_le:
  assumes "n < 2 ^ k"
  shows "bitlen n \<le> k"
proof (cases "n = 0")
  case True
  then show ?thesis by (simp add: bitlen_0)
next
  case False
  then have "2 ^ (bitlen n - 1) \<le> n" using bitlen_bounds [of n] by simp
  then have "(2 :: nat) ^ (bitlen n - 1) < 2 ^ k" using assms by (rule le_less_trans)
  then have "bitlen n - 1 < k" by (rule power_less_imp_less_exp [rotated]) simp
  then show ?thesis by simp
qed

lemma rne_of_int: "rne (of_int z) = z"
  by (simp add: rne_def)

lemma rne_close: "\<bar>of_int (rne x) - x\<bar> \<le> 1 / 2"
proof -
  have f: "of_int \<lfloor>x\<rfloor> \<le> x" "x < of_int \<lfloor>x\<rfloor> + 1"
    by linarith+
  show ?thesis
    unfolding rne_def Let_def using f by (auto simp add: abs_le_iff)
qed


lemma ilog2_nat:
  assumes "0 < n"
  shows "ilog2 (of_nat n) = int (bitlen n) - 1"
proof -
  have "(1 :: rat) \<le> of_nat n" using assms by simp
  then show ?thesis by (simp add: ilog2_def)
qed

lemma f32_round_nat:
  assumes "n < 2 ^ 24"
  shows "f32_round (of_nat n) = of_nat n"
proof (cases "n = 0")
  case True
  then show ?thesis by (simp add: f32_round_def)
next
  case False
  then have pos: "0 < n" by simp
  have bl: "bitlen n \<le> 24" using assms by (rule bitlen_le)
  have ne: "(of_nat n :: rat) \<noteq> 0" using pos by simp
  show ?thesis
  proof (cases "bitlen n = 24")
    case True
    then have e: "ilog2 (of_nat n) - 23 = 0"
      using ilog2_nat [OF pos] by simp
    have "rne (of_nat n) = int n"
      using rne_of_int [of "int n"] by simp
    then show ?thesis
      using ne by (simp add: f32_round_def Let_def e)
  next
    case False
    define k where "k = 24 - bitlen n"
    have kpos: "0 < k" using bl False by (simp add: k_def)
    have e: "ilog2 (of_nat n) - 23 = - int k"
      using ilog2_nat [OF pos] bl by (simp add: k_def)
    have "(of_nat n :: rat) * 2 ^ k = of_int (int (n * 2 ^ k))"
      by simp
    then have "rne (of_nat n * 2 ^ k) = int (n * 2 ^ k)"
      by (simp only: rne_of_int)
    then have "of_int (rne (of_nat n * 2 ^ k)) / 2 ^ k = (of_nat n :: rat)"
      by simp
    then show ?thesis
      using ne kpos by (simp add: f32_round_def Let_def e)
  qed
qed


lemma f32_round_near:
  assumes "1 \<le> x" "x < 2 ^ 18"
  shows "\<bar>f32_round x - x\<bar> \<le> 1 / 128"
proof -
  have fl: "\<lfloor>x\<rfloor> < 2 ^ 18"
    using assms(2) by (simp add: floor_less_iff)
  have "0 \<le> \<lfloor>x\<rfloor>" using assms(1) by simp
  then have "nat \<lfloor>x\<rfloor> < 2 ^ 18"
    using fl by (simp add: nat_less_iff)
  then have bl: "bitlen (nat \<lfloor>x\<rfloor>) \<le> 18"
    by (rule bitlen_le)
  define k where "k = 24 - bitlen (nat \<lfloor>x\<rfloor>)"
  have k6: "6 \<le> k" using bl by (simp add: k_def)
  have e: "ilog2 x - 23 = - int k"
    using assms(1) bl by (simp add: ilog2_def k_def)
  have ne: "x \<noteq> 0" using assms(1) by auto
  have r: "f32_round x = of_int (rne (x * 2 ^ k)) / 2 ^ k"
    using ne k6 by (simp add: f32_round_def Let_def e)
  have "f32_round x - x = (of_int (rne (x * 2 ^ k)) - x * 2 ^ k) / 2 ^ k"
    unfolding r by (simp add: field_simps)
  then have "\<bar>f32_round x - x\<bar> = \<bar>of_int (rne (x * 2 ^ k)) - x * 2 ^ k\<bar> / 2 ^ k"
    by simp
  also have "\<dots> \<le> (1 / 2) / 2 ^ k"
    using rne_close [of "x * 2 ^ k"] by (intro divide_right_mono) simp_all
  also have "\<dots> \<le> (1 / 2) / 2 ^ 6"
  proof -
    have "(2 :: rat) ^ 6 \<le> 2 ^ k"
      using k6 by (intro power_increasing) simp_all
    then show ?thesis
      by (intro divide_left_mono) simp_all
  qed
  finally show ?thesis by simp
qed

lemma floor_near_hundredth:
  fixes y :: rat
  assumes near: "\<bar>y - of_nat m / 100\<bar> \<le> 1 / 128" and nd: "\<not> 100 dvd m"
  shows "\<lfloor>y\<rfloor> = int (m div 100)"
proof -
  define q where "q = m div 100"
  define r where "r = m mod 100"
  have m: "m = 100 * q + r" by (simp add: q_def r_def)
  have r1: "1 \<le> r" "r \<le> 99"
    using nd by (auto simp add: r_def dvd_eq_mod_eq_0 Suc_le_eq)
  have x: "(of_nat m :: rat) / 100 = of_nat q + of_nat r / 100"
    unfolding m by (simp add: field_simps)
  have "(1 :: rat) \<le> of_nat r" "(of_nat r :: rat) \<le> 99"
    using r1 by simp_all
  then have rb: "(1 :: rat) / 100 \<le> of_nat r / 100" "(of_nat r :: rat) / 100 \<le> 99 / 100"
    by simp_all
  have n1: "y - of_nat m / 100 \<le> 1 / 128" and n2: "of_nat m / 100 - y \<le> 1 / 128"
    using near by linarith+
  have lo: "of_nat q \<le> y" and hi: "y < of_nat q + 1"
    using n1 n2 rb unfolding x by linarith+
  have "\<lfloor>y\<rfloor> = int q"
    using lo hi by (simp add: floor_unique)
  then show ?thesis by (simp add: q_def)
qed

lemma ucast_mod_256:
  assumes "K < 2 ^ 32"
  shows "(ucast ((word_of_int (int K) :: u32) mod 256) :: u8) = of_nat (K mod 256)"
proof -
  have k: "unat (word_of_nat K :: u32) = K"
    using assms by (simp add: unat_of_nat)
  have "unat ((word_of_int (int K) :: u32) mod 256) = K mod 256"
    by (simp add: unat_mod_distrib k)
  then have "unat (ucast ((word_of_int (int K) :: u32) mod 256) :: u8) = (K mod 256) mod 256"
    by (simp add: unsigned_ucast_eq take_bit_eq_mod)
  moreover have "unat (of_nat (K mod 256) :: u8) = K mod 256"
    by (simp add: unat_of_nat)
  ultimately show ?thesis
    by (simp add: word_unat_eq_iff)
qed

lemma convertValue_small:
  assumes "unat v * 255 < 2 ^ 24"
  shows "convertValue v = Some (scale v)"
proof -
  define N where "N = unat v"
  define M where "M = N * 255"
  define K where "K = M div 100"
  have M24: "M < 2 ^ 24" using assms by (simp add: M_def N_def)
  then have N24: "N < 2 ^ 24" by (simp add: M_def)
  have "K \<le> M" by (simp add: K_def)
  then have K24: "K < 2 ^ 24" using M24 by (rule le_less_trans)
  have f: "f32_round (of_nat N) = of_nat N"
    using N24 by (rule f32_round_nat)
  have "(of_nat N :: rat) * 255 = of_nat M" by (simp add: M_def)
  then have p: "f32_round (of_nat N * 255) = of_nat M"
    using f32_round_nat [OF M24] by simp
  define q where "q = f32_round (of_nat M / 100)"
  have q: "\<lfloor>q\<rfloor> = int K \<and> q < 2 ^ 32"
  proof (cases "100 dvd M")
    case True
    then have "(of_nat M :: rat) / 100 = of_nat K"
      by (auto simp add: K_def)
    then have "q = of_nat K"
      unfolding q_def using f32_round_nat [OF K24] by simp
    moreover have "(of_nat K :: rat) < 2 ^ 32"
    proof -
      have "K < 2 ^ 32" using K24 by simp
      then have "(of_nat K :: rat) < of_nat (2 ^ 32)" by (simp only: of_nat_less_iff)
      then show ?thesis by simp
    qed
    ultimately show ?thesis by simp
  next
    case False
    then have "M \<noteq> 0" by (metis dvd_0_right)
    then have "0 < N" by (simp add: M_def)
    then have "100 \<le> M" by (simp add: M_def)
    then have "(of_nat 100 :: rat) \<le> of_nat M" by (simp only: of_nat_le_iff)
    then have x1: "(1 :: rat) \<le> of_nat M / 100" by simp
    have "(of_nat M :: rat) < of_nat (2 ^ 24)" using M24 by (simp only: of_nat_less_iff)
    then have x2: "(of_nat M :: rat) / 100 < 2 ^ 18" by simp
    have near: "\<bar>q - of_nat M / 100\<bar> \<le> 1 / 128"
      unfolding q_def using x1 x2 by (rule f32_round_near)
    have fl: "\<lfloor>q\<rfloor> = int K"
      unfolding K_def using near False by (rule floor_near_hundredth)
    have "q \<le> of_nat M / 100 + 1 / 128" using near by linarith
    then have "q < 2 ^ 32" using x2 by simp
    then show ?thesis using fl by simp
  qed
  have K32: "K < 2 ^ 32" using K24 by simp
  have "convertValue v = Some (ucast ((word_of_int \<lfloor>q\<rfloor> :: u32) mod 256))"
    using q by (simp add: convertValue_def Let_def f p q_def N_def [symmetric])
  also have "\<dots> = Some (of_nat (K mod 256))"
    using q ucast_mod_256 [OF K32] by simp
  finally show ?thesis
    by (simp add: scale_def K_def M_def N_def)
qed


lemma floor_rat_numeral:
  "\<lfloor>(numeral a :: rat) / numeral b\<rfloor> = numeral a div numeral b"
  using floor_divide_of_int_eq [of "numeral a" "numeral b", where 'a = rat] by simp

lemma f32_round_2p24_1: "f32_round 16777217 = 16777216"
  by (simp add: f32_round_def ilog2_def rne_def Let_def bitlen.simps floor_rat_numeral)

lemma f32_round_255_2p24: "f32_round 4278190080 = 4278190080"
  by (simp add: f32_round_def ilog2_def rne_def Let_def bitlen.simps floor_rat_numeral)

lemma f32_round_quot: "f32_round (213909504 / 5) = 42781900"
  by (simp add: f32_round_def ilog2_def rne_def Let_def bitlen.simps floor_rat_numeral)


lemma convertValue_2p24_1: "convertValue 16777217 = Some 204"
  by (simp add: convertValue_def Let_def f32_round_2p24_1 f32_round_255_2p24 f32_round_quot)

lemma scale_2p24_1: "scale 16777217 = 207"
  by (simp add: scale_def)

lemma convertValue_0: "convertValue 0 = Some 0"
  using convertValue_small [of 0] by (simp add: scale_def)

lemma scale_0: "scale 0 = 0"
  by (simp add: scale_def)

lemma small_of_le:
  fixes v :: u32
  assumes "v \<le> 65793"
  shows "unat v * 255 < 2 ^ 24"
proof -
  have "unat v \<le> 65793"
    using assms by (simp add: word_le_nat_alt)
  then show ?thesis by simp
qed

section \<open>Fragment: lemmas\<close>

declare fill_loop.simps [simp del] row_loop.simps [simp del]

lemma fill_loop_done: "\<not> y < n \<Longrightarrow> fill_loop y n c st = Some st"
  by (subst fill_loop.simps) simp

lemma fill_loop_step:
  "y < n \<Longrightarrow> fill_loop y n c st =
     (case put_color c st of None \<Rightarrow> None | Some st' \<Rightarrow> fill_loop (y + 1) n c st')"
  by (subst fill_loop.simps) simp

lemma row_loop_done:
  "\<not> y < unat ah \<Longrightarrow> row_loop y ri xo yo aw ah st = Some st"
  by (subst row_loop.simps) simp

lemma row_loop_step:
  "y < unat ah \<Longrightarrow> row_loop y ri xo yo aw ah st =
     (case copy_bytes (img_data (image ri))
             (unat ((yo + (ah - 1 - of_nat y)) * width (img_size (image ri)) + xo) * 4)
             (unat (aw * 4)) st of
        None \<Rightarrow> None
      | Some st1 \<Rightarrow>
         (case fill_loop (unat aw) (unat (width (cellSize ri))) (defaultColor ri) st1 of
            None \<Rightarrow> None
          | Some st2 \<Rightarrow> row_loop (y + 1) ri xo yo aw ah st2))"
  by (subst row_loop.simps) (simp add: Let_def)

lemma take_upd_snoc: "i < length xs \<Longrightarrow> take (Suc i) (xs[i := a]) = take i xs @ [a]"
  by (simp add: take_Suc_conv_app_nth)

lemma take4_upd:
  assumes "t + 4 \<le> length buf"
  shows "take (t + 4) (buf[t := a, t + 1 := b, t + 2 := c, t + 3 := d])
           = take t buf @ [a, b, c, d]"
proof -
  have 1: "take (Suc t) (buf[t := a]) = take t buf @ [a]"
    using assms by (intro take_upd_snoc) simp
  have 2: "take (Suc (Suc t)) (buf[t := a, Suc t := b]) = take (Suc t) (buf[t := a]) @ [b]"
    using assms by (intro take_upd_snoc) simp
  have 3: "take (Suc (Suc (Suc t))) (buf[t := a, Suc t := b, Suc (Suc t) := c])
             = take (Suc (Suc t)) (buf[t := a, Suc t := b]) @ [c]"
    using assms by (intro take_upd_snoc) simp
  have 4: "take (Suc (Suc (Suc (Suc t))))
             (buf[t := a, Suc t := b, Suc (Suc t) := c, Suc (Suc (Suc t)) := d])
             = take (Suc (Suc (Suc t))) (buf[t := a, Suc t := b, Suc (Suc t) := c]) @ [d]"
    using assms by (intro take_upd_snoc) simp
  have e: "t + 4 = Suc (Suc (Suc (Suc t)))" "t + 3 = Suc (Suc (Suc t))"
    "t + 2 = Suc (Suc t)" "t + 1 = Suc t"
    by simp_all
  show ?thesis
    unfolding e 4 3 2 1 by simp
qed

lemma put_color_ok:
  assumes "t + 4 \<le> length buf"
  shows "\<exists>buf'. put_color c (buf, t) = Some (buf', t + 4) \<and> length buf' = length buf
           \<and> take (t + 4) buf' = take t buf @ rgba_bytes c"
proof -
  have "t + 3 < length buf" using assms by simp
  then show ?thesis
    using take4_upd [OF assms] by (simp add: put_color_def rgba_bytes_def)
qed

lemma fill_loop_ok:
  assumes "t + 4 * (n - y) \<le> length buf"
  shows "\<exists>buf'. fill_loop y n c (buf, t) = Some (buf', t + 4 * (n - y))
           \<and> length buf' = length buf
           \<and> take (t + 4 * (n - y)) buf' = take t buf @ concat (replicate (n - y) (rgba_bytes c))"
  using assms
proof (induction "n - y" arbitrary: y buf t)
  case 0
  then show ?case by (simp add: fill_loop_done)
next
  case (Suc k)
  then have yn: "y < n" and k: "k = n - (y + 1)" and ny: "n - y = Suc k" by simp_all
  have "t + 4 \<le> length buf" using Suc.prems ny by simp
  from put_color_ok [OF this, of c]
  obtain buf1 where b1: "put_color c (buf, t) = Some (buf1, t + 4)" "length buf1 = length buf"
    "take (t + 4) buf1 = take t buf @ rgba_bytes c"
    by blast
  have "t + 4 + 4 * (n - (y + 1)) \<le> length buf1"
    using Suc.prems ny k b1(2) by simp
  from Suc.hyps(1) [OF k this]
  obtain buf2 where b2: "fill_loop (y + 1) n c (buf1, t + 4) = Some (buf2, t + 4 + 4 * (n - (y + 1)))"
    "length buf2 = length buf1"
    "take (t + 4 + 4 * (n - (y + 1))) buf2
       = take (t + 4) buf1 @ concat (replicate (n - (y + 1)) (rgba_bytes c))"
    by blast
  have e: "t + 4 + 4 * (n - (y + 1)) = t + 4 * (n - y)"
    using yn by simp
  have run: "fill_loop y n c (buf, t) = Some (buf2, t + 4 * (n - y))"
    using yn b1(1) b2(1) e by (simp add: fill_loop_step)
  have "take (t + 4 * (n - y)) buf2 = take t buf @ concat (replicate (n - y) (rgba_bytes c))"
    using b2(3) b1(3) unfolding e ny k [symmetric] by (simp add: add.assoc)
  then show ?case
    using run b1(2) b2(2) by simp
qed

lemma copy_bytes_ok:
  assumes "off + n \<le> length src" "t + n \<le> length buf"
  shows "\<exists>buf'. copy_bytes src off n (buf, t) = Some (buf', t + n) \<and> length buf' = length buf
           \<and> take (t + n) buf' = take t buf @ take n (drop off src)"
proof (cases "n = 0")
  case True
  then show ?thesis by (simp add: copy_bytes_def)
next
  case False
  let ?buf' = "take t buf @ take n (drop off src) @ drop (t + n) buf"
  have l: "length (take n (drop off src)) = n" using assms by simp
  have "length ?buf' = length buf" using assms l by simp
  moreover have "take (t + n) ?buf' = take t buf @ take n (drop off src)"
    using assms l by simp
  ultimately show ?thesis
    using False assms by (simp add: copy_bytes_def)
qed

lemma row_loop_ok:
  assumes ah: "unat availH = ah" and aw: "unat availW = aw" and aw4: "unat (availW * 4) = 4 * aw"
    and off: "\<And>y. y < ah \<Longrightarrow>
        unat ((yOff + (availH - 1 - of_nat y)) * width (img_size (image ri)) + xOff)
          = (yo + (ah - 1 - y)) * unat (width (img_size (image ri))) + xo"
    and src: "\<And>y. y < ah \<Longrightarrow>
        4 * ((yo + (ah - 1 - y)) * unat (width (img_size (image ri))) + xo) + 4 * aw
          \<le> length (img_data (image ri))"
    and awcw: "aw \<le> unat (width (cellSize ri))"
    and room: "t + 4 * unat (width (cellSize ri)) * (ah - y0) \<le> length buf"
  shows "\<exists>buf'. row_loop y0 ri xOff yOff availW availH (buf, t)
                   = Some (buf', t + 4 * unat (width (cellSize ri)) * (ah - y0))
           \<and> length buf' = length buf
           \<and> take (t + 4 * unat (width (cellSize ri)) * (ah - y0)) buf'
               = take t buf @ concat (map (frag_row ri xo yo aw ah) [y0..<ah])"
  using room
proof (induction "ah - y0" arbitrary: y0 buf t)
  case 0
  then have "\<not> y0 < unat availH" using ah by simp
  then show ?case using 0 by (simp add: row_loop_done)
next
  case (Suc k)
  let ?cw = "unat (width (cellSize ri))"
  let ?o = "4 * ((yo + (ah - 1 - y0)) * unat (width (img_size (image ri))) + xo)"
  have y: "y0 < ah" and k: "k = ah - (y0 + 1)" and d: "ah - y0 = Suc k"
    using Suc.hyps(2) by simp_all
  have room: "t + 4 * ?cw + 4 * ?cw * k \<le> length buf"
    using Suc.prems unfolding d by (simp add: algebra_simps)
  have "4 * aw \<le> 4 * ?cw" using awcw by simp
  then have r1: "t + 4 * aw \<le> length buf" using room by linarith
  from copy_bytes_ok [OF src [OF y] r1]
  obtain buf1 where b1: "copy_bytes (img_data (image ri)) ?o (4 * aw) (buf, t) = Some (buf1, t + 4 * aw)"
    "length buf1 = length buf"
    "take (t + 4 * aw) buf1 = take t buf @ take (4 * aw) (drop ?o (img_data (image ri)))"
    by blast
  have r2: "t + 4 * aw + 4 * (?cw - aw) \<le> length buf1"
    using room awcw b1(2) by simp
  from fill_loop_ok [OF r2, of "defaultColor ri"]
  obtain buf2 where b2:
    "fill_loop aw ?cw (defaultColor ri) (buf1, t + 4 * aw) = Some (buf2, t + 4 * aw + 4 * (?cw - aw))"
    "length buf2 = length buf1"
    "take (t + 4 * aw + 4 * (?cw - aw)) buf2
       = take (t + 4 * aw) buf1 @ concat (replicate (?cw - aw) (rgba_bytes (defaultColor ri)))"
    by blast
  have e: "t + 4 * aw + 4 * (?cw - aw) = t + 4 * ?cw"
    using awcw by simp
  have row: "take (t + 4 * ?cw) buf2 = take t buf @ frag_row ri xo yo aw ah y0"
    using b2(3) b1(3) unfolding e by (simp add: frag_row_def)
  have r3: "t + 4 * ?cw + 4 * ?cw * (ah - (y0 + 1)) \<le> length buf2"
    using room b1(2) b2(2) unfolding k [symmetric] by simp
  from Suc.hyps(1) [OF k r3]
  obtain buf3 where b3:
    "row_loop (y0 + 1) ri xOff yOff availW availH (buf2, t + 4 * ?cw)
       = Some (buf3, t + 4 * ?cw + 4 * ?cw * (ah - (y0 + 1)))"
    "length buf3 = length buf2"
    "take (t + 4 * ?cw + 4 * ?cw * (ah - (y0 + 1))) buf3
       = take (t + 4 * ?cw) buf2 @ concat (map (frag_row ri xo yo aw ah) [y0 + 1..<ah])"
    by blast
  have e3: "t + 4 * ?cw + 4 * ?cw * (ah - (y0 + 1)) = t + 4 * ?cw * (ah - y0)"
    unfolding d k [symmetric] by (simp add: algebra_simps)
  have step: "row_loop y0 ri xOff yOff availW availH (buf, t) =
     (case copy_bytes (img_data (image ri))
             (unat ((yOff + (availH - 1 - of_nat y0)) * width (img_size (image ri)) + xOff) * 4)
             (unat (availW * 4)) (buf, t) of
        None \<Rightarrow> None
      | Some st1 \<Rightarrow>
         (case fill_loop (unat availW) (unat (width (cellSize ri))) (defaultColor ri) st1 of
            None \<Rightarrow> None
          | Some st2 \<Rightarrow> row_loop (y0 + 1) ri xOff yOff availW availH st2))"
    using y ah by (intro row_loop_step) simp
  have oeq: "unat ((yOff + (availH - 1 - of_nat y0)) * width (img_size (image ri)) + xOff) * 4 = ?o"
    unfolding off [OF y] by simp
  have run: "row_loop y0 ri xOff yOff availW availH (buf, t)
               = Some (buf3, t + 4 * ?cw * (ah - y0))"
    by (simp only: step oeq aw4 aw b1(1) b2(1) b3(1) e e3 option.case)
  have l: "[y0..<ah] = y0 # [y0 + 1..<ah]"
    using y by (simp add: upt_conv_Cons)
  have "take (t + 4 * ?cw * (ah - y0)) buf3
          = take t buf @ concat (map (frag_row ri xo yo aw ah) [y0..<ah])"
    using b3(3) row unfolding e3 l by simp
  then show ?case
    using run b1(2) b2(2) b3(2) by simp
qed

lemma unat_min: "unat (min a b) = min (unat a) (unat b)" for a b :: u32
  by (simp add: min_def word_le_nat_alt)

lemma unat_lt_2p32: "unat (x :: u32) < 2 ^ 32"
  using unsigned_less [of x, where 'a = nat] by simp

lemma unat_mult_small:
  fixes a b :: u32
  assumes "unat a * unat b < 2 ^ 32"
  shows "unat (a * b) = unat a * unat b"
  using assms by (simp add: unat_mult_lem [THEN iffD1])

lemma fragment_closed:
  fixes ri :: RasterizedImage and pos :: Coordinate
  defines "W \<equiv> unat (width (img_size (image ri)))" and "H \<equiv> unat (height (img_size (image ri)))"
    and "cw \<equiv> unat (width (cellSize ri))" and "ch \<equiv> unat (height (cellSize ri))"
  defines "xo \<equiv> unat (column pos) * cw" and "yo \<equiv> unat (row pos) * ch"
  defines "aw \<equiv> min (W - xo) cw" and "ah \<equiv> min (H - yo) ch"
  assumes xfit: "xo \<le> W" and yfit: "yo \<le> H"
    and data: "length (img_data (image ri)) = 4 * (W * H)" and img: "W * H < 2 ^ 32"
    and cell: "4 * (cw * ch) < 2 ^ 32" and chpos: "0 < ch"
  shows "fragment ri pos =
           Some (concat (replicate ((ch - ah) * cw) (rgba_bytes (defaultColor ri)))
                 @ concat (map (frag_row ri xo yo aw ah) [0..<ah]))"
proof -
  let ?Ww = "width (img_size (image ri))" and ?Hw = "height (img_size (image ri))"
  let ?cww = "width (cellSize ri)" and ?chw = "height (cellSize ri)"
  let ?xO = "column pos * ?cww" and ?yO = "row pos * ?chw"
  let ?aW = "min (?Ww - ?xO) ?cww" and ?aH = "min (?Hw - ?yO) ?chw"
  have W32: "W < 2 ^ 32" and H32: "H < 2 ^ 32"
    unfolding W_def H_def by (rule unat_lt_2p32)+
  have uxo: "unat ?xO = xo"
    unfolding xo_def cw_def using xfit W32 by (intro unat_mult_small) (simp add: xo_def cw_def)
  have uyo: "unat ?yO = yo"
    unfolding yo_def ch_def using yfit H32 by (intro unat_mult_small) (simp add: yo_def ch_def)
  have xle: "?xO \<le> ?Ww" and yle: "?yO \<le> ?Hw"
    using xfit yfit by (simp_all add: word_le_nat_alt uxo uyo W_def H_def)
  have uaw: "unat ?aW = aw"
    using xle by (simp add: unat_min unat_sub uxo aw_def W_def cw_def)
  have uah: "unat ?aH = ah"
    using yle by (simp add: unat_min unat_sub uyo ah_def H_def ch_def)
  have awcw: "aw \<le> cw" and ahch: "ah \<le> ch" and awW: "xo + aw \<le> W" and ahH: "yo + ah \<le> H"
    using xfit yfit by (simp_all add: aw_def ah_def)
  have comm: "cw * ch = ch * cw" by (rule mult.commute)
  have cwch: "ch * cw < 2 ^ 32" using cell comm by linarith
  have "cw * 1 \<le> cw * ch" using chpos by (intro mult_le_mono2) simp
  then have "cw \<le> cw * ch" by simp
  then have cw4: "4 * cw < 2 ^ 32" using cell by linarith
  have "ah * cw \<le> ch * cw" using ahch by (rule mult_le_mono1)
  then have ahcw: "ah * cw < 2 ^ 32" using cwch by (rule le_less_trans)
  have u1: "unat (?aH * ?cww) = ah * cw"
    using ahcw unat_mult_small [of ?aH ?cww] by (simp add: uah cw_def)
  have u2: "unat (?chw * ?cww) = ch * cw"
    using cwch unat_mult_small [of ?chw ?cww] by (simp add: ch_def cw_def)
  have u3: "unat (?aW * 4) = 4 * aw"
  proof -
    have "unat ?aW * unat (4 :: u32) < 2 ^ 32" using awcw cw4 by (simp add: uaw)
    then have "unat (?aW * 4) = unat ?aW * unat (4 :: u32)" by (rule unat_mult_small)
    then show ?thesis by (simp add: uaw)
  qed
  have len0: "(cw * ch * 4) mod 2 ^ 64 = 4 * (cw * ch)"
    using cell by simp
  let ?frag0 = "replicate (4 * (cw * ch)) (0 :: u8)"
  have gap: "ch * cw - ah * cw = (ch - ah) * cw"
    by (simp add: diff_mult_distrib)
  have split: "4 * ((ch - ah) * cw) + 4 * cw * ah = 4 * (cw * ch)"
    using ahch by (simp add: algebra_simps flip: gap)
  have "0 + 4 * (ch * cw - ah * cw) \<le> length ?frag0"
    using split unfolding gap by simp
  from fill_loop_ok [OF this, of "defaultColor ri"]
  obtain buf1 where b1:
    "fill_loop (ah * cw) (ch * cw) (defaultColor ri) (?frag0, 0) = Some (buf1, 4 * ((ch - ah) * cw))"
    "length buf1 = 4 * (cw * ch)"
    "take (4 * ((ch - ah) * cw)) buf1 = concat (replicate ((ch - ah) * cw) (rgba_bytes (defaultColor ri)))"
    unfolding gap by auto
  have off: "unat ((?yO + (?aH - 1 - of_nat y)) * ?Ww + ?xO) = (yo + (ah - 1 - y)) * W + xo"
    if y: "y < ah" for y
  proof -
    have "(of_nat (ah - 1 - y) :: u32) = of_nat ah - 1 - of_nat y"
      using y by simp
    then have d: "?aH - 1 - of_nat y = of_nat (ah - 1 - y)"
      by (simp add: uah [symmetric])
    have "(?yO + (?aH - 1 - of_nat y)) * ?Ww + ?xO
            = of_nat ((yo + (ah - 1 - y)) * W + xo)"
      unfolding d by (simp add: uyo [symmetric] uxo [symmetric] W_def)
    then have "unat ((?yO + (?aH - 1 - of_nat y)) * ?Ww + ?xO)
            = ((yo + (ah - 1 - y)) * W + xo) mod 2 ^ 32"
      by (simp only: unat_of_nat) simp
    moreover have "(yo + (ah - 1 - y)) * W + xo < 2 ^ 32"
    proof -
      have "yo + (ah - 1 - y) + 1 \<le> H" using ahH y by simp
      then have "(yo + (ah - 1 - y) + 1) * W \<le> H * W" by (rule mult_le_mono1)
      then have "(yo + (ah - 1 - y)) * W + W \<le> W * H" by (simp add: algebra_simps)
      then show ?thesis using xfit img by linarith
    qed
    ultimately show ?thesis by simp
  qed
  have src: "4 * ((yo + (ah - 1 - y)) * W + xo) + 4 * aw \<le> length (img_data (image ri))"
    if y: "y < ah" for y
  proof -
    have "yo + (ah - 1 - y) + 1 \<le> H" using ahH y by simp
    then have "(yo + (ah - 1 - y) + 1) * W \<le> H * W" by (rule mult_le_mono1)
    then have "(yo + (ah - 1 - y)) * W + W \<le> W * H" by (simp add: algebra_simps)
    then have "(yo + (ah - 1 - y)) * W + xo + aw \<le> W * H" using awW by linarith
    then show ?thesis unfolding data by simp
  qed
  have room: "4 * ((ch - ah) * cw) + 4 * cw * (ah - 0) \<le> length buf1"
    using split b1(2) by simp
  have "\<exists>buf'. row_loop 0 ri ?xO ?yO ?aW ?aH (buf1, 4 * ((ch - ah) * cw))
                   = Some (buf', 4 * ((ch - ah) * cw) + 4 * cw * (ah - 0))
           \<and> length buf' = length buf1
           \<and> take (4 * ((ch - ah) * cw) + 4 * cw * (ah - 0)) buf'
               = take (4 * ((ch - ah) * cw)) buf1
                 @ concat (map (frag_row ri xo yo aw ah) [0..<ah])"
    unfolding cw_def
  proof (rule row_loop_ok)
    show "unat ?aH = ah" by (rule uah)
    show "unat ?aW = aw" by (rule uaw)
    show "unat (?aW * 4) = 4 * aw" by (rule u3)
    show "unat ((?yO + (?aH - 1 - of_nat y)) * ?Ww + ?xO) = (yo + (ah - 1 - y)) * unat ?Ww + xo"
      if "y < ah" for y
      using off [OF that] unfolding W_def .
    show "4 * ((yo + (ah - 1 - y)) * unat ?Ww + xo) + 4 * aw \<le> length (img_data (image ri))"
      if "y < ah" for y
      using src [OF that] unfolding W_def .
    show "aw \<le> unat ?cww"
      using awcw unfolding cw_def .
    show "4 * ((ch - ah) * unat ?cww) + 4 * unat ?cww * (ah - 0) \<le> length buf1"
      using room unfolding cw_def .
  qed
  then obtain buf2 where b2:
    "row_loop 0 ri ?xO ?yO ?aW ?aH (buf1, 4 * ((ch - ah) * cw))
       = Some (buf2, 4 * ((ch - ah) * cw) + 4 * cw * (ah - 0))"
    "length buf2 = length buf1"
    "take (4 * ((ch - ah) * cw) + 4 * cw * (ah - 0)) buf2
       = take (4 * ((ch - ah) * cw)) buf1 @ concat (map (frag_row ri xo yo aw ah) [0..<ah])"
    by blast
  have "take (4 * (cw * ch)) buf2
       = concat (replicate ((ch - ah) * cw) (rgba_bytes (defaultColor ri)))
         @ concat (map (frag_row ri xo yo aw ah) [0..<ah])"
    using b2(3) split unfolding b1(3) by simp
  then have out: "buf2 = concat (replicate ((ch - ah) * cw) (rgba_bytes (defaultColor ri)))
         @ concat (map (frag_row ri xo yo aw ah) [0..<ah])"
    using b2(2) b1(2) by simp
  have "fragment ri pos = Some buf2"
    unfolding fragment_def Let_def cw_def [symmetric] ch_def [symmetric]
    by (simp only: xle yle not_True_eq_False if_False len0 u1 u2 b1(1) b2(1)
        option.case prod.case)
  then show ?thesis
    unfolding out .
qed

lemma nth_concat_uniform:
  assumes "\<forall>xs \<in> set xss. length xs = L" "i < length xss" "j < L"
  shows "concat xss ! (i * L + j) = xss ! i ! j"
  using assms
proof (induction xss arbitrary: i)
  case Nil
  then show ?case by simp
next
  case (Cons xs xss)
  have l: "length xs = L" using Cons.prems(1) by simp
  show ?case
  proof (cases i)
    case 0
    then show ?thesis using Cons.prems(3) l by (simp add: nth_append)
  next
    case (Suc i')
    then have "i' < length xss" using Cons.prems(2) by simp
    then have "concat xss ! (i' * L + j) = xss ! i' ! j"
      using Cons.IH Cons.prems(1,3) by simp
    moreover have "Suc i' * L + j = length xs + (i' * L + j)"
      using l by simp
    ultimately show ?thesis
      unfolding Suc by (simp only: concat.simps nth_append_length_plus nth_Cons_Suc)
  qed
qed

lemma length_concat_uniform:
  assumes "\<forall>xs \<in> set xss. length xs = L"
  shows "length (concat xss) = length xss * L"
  using assms by (induction xss) simp_all

lemma nth_concat_replicate:
  assumes "length xs = L" "i < n" "k < L"
  shows "concat (replicate n xs) ! (i * L + k) = xs ! k"
  using nth_concat_uniform [of "replicate n xs" L i k] assms by simp

lemma length_rgba_bytes: "length (rgba_bytes c) = 4"
  by (simp add: rgba_bytes_def)

lemma length_frag_row:
  assumes "4 * ((yo + (ah - 1 - y)) * unat (width (img_size (image ri))) + xo) + 4 * aw
             \<le> length (img_data (image ri))"
    and "aw \<le> unat (width (cellSize ri))"
  shows "length (frag_row ri xo yo aw ah y) = 4 * unat (width (cellSize ri))"
  using assms
  by (simp add: frag_row_def length_concat_uniform [where L = 4] length_rgba_bytes)

lemma nth_frag_row_image:
  assumes "4 * ((yo + (ah - 1 - y)) * unat (width (img_size (image ri))) + xo) + 4 * aw
             \<le> length (img_data (image ri))"
    and "x < aw" "k < 4"
  shows "frag_row ri xo yo aw ah y ! (x * 4 + k)
           = img_data (image ri)
               ! (((yo + (ah - 1 - y)) * unat (width (img_size (image ri))) + xo + x) * 4 + k)"
proof -
  let ?o = "4 * ((yo + (ah - 1 - y)) * unat (width (img_size (image ri))) + xo)"
  have i: "x * 4 + k < 4 * aw" using assms(2,3) by simp
  have l: "length (take (4 * aw) (drop ?o (img_data (image ri)))) = 4 * aw"
    using assms(1) by simp
  have "frag_row ri xo yo aw ah y ! (x * 4 + k)
          = take (4 * aw) (drop ?o (img_data (image ri))) ! (x * 4 + k)"
    using i l by (simp add: frag_row_def nth_append)
  also have "\<dots> = img_data (image ri) ! (?o + (x * 4 + k))"
    using i assms(1) by simp
  also have "?o + (x * 4 + k)
      = ((yo + (ah - 1 - y)) * unat (width (img_size (image ri))) + xo + x) * 4 + k"
    by simp
  finally show ?thesis .
qed

lemma nth_frag_row_default:
  assumes "4 * ((yo + (ah - 1 - y)) * unat (width (img_size (image ri))) + xo) + 4 * aw
             \<le> length (img_data (image ri))"
    and "aw \<le> x" "x < unat (width (cellSize ri))" "k < 4"
  shows "frag_row ri xo yo aw ah y ! (x * 4 + k) = rgba_bytes (defaultColor ri) ! k"
proof -
  let ?o = "4 * ((yo + (ah - 1 - y)) * unat (width (img_size (image ri))) + xo)"
  have l: "length (take (4 * aw) (drop ?o (img_data (image ri)))) = 4 * aw"
    using assms(1) by simp
  have e: "x * 4 + k = 4 * aw + ((x - aw) * 4 + k)"
    using assms(2) by (simp add: algebra_simps)
  have "frag_row ri xo yo aw ah y ! (x * 4 + k)
          = concat (replicate (unat (width (cellSize ri)) - aw) (rgba_bytes (defaultColor ri)))
              ! ((x - aw) * 4 + k)"
    unfolding frag_row_def e using l by (metis nth_append_length_plus)
  also have "\<dots> = rgba_bytes (defaultColor ri) ! k"
    using assms(2,3,4) by (intro nth_concat_replicate length_rgba_bytes) simp_all
  finally show ?thesis .
qed

lemma unat_times_le_of_sint:
  fixes c cw w :: u32
  assumes "0 \<le> sint c" "sint c * uint cw \<le> uint w"
  shows "unat c * unat cw \<le> unat w"
proof -
  have "unat c < 2 ^ 31" using assms(1) by (simp add: sint_nonneg_iff)
  then have "sint c = int (unat c)" by (rule sint_small)
  then have "int (unat c) * int (unat cw) \<le> int (unat w)"
    using assms(2) by simp
  then have "int (unat c * unat cw) \<le> int (unat w)"
    by (simp only: of_nat_mult)
  then show ?thesis
    by (simp only: of_nat_le_iff)
qed

section \<open>Builder: claims\<close>

text \<open>
  C1. In a builder whose buffer holds four bytes for each pixel of the raster and whose
  cursor column is not negative: if the cursor column is less than \<open>size.w\<close>, then
  \<open>render(s)\<close> returns, the pixel at (row \<open>sixelCursor.row + i\<close>, column
  \<open>sixelCursor.column\<close>) holds the current palette color with alpha \<open>0xFF\<close> for each
  \<open>i\<close> in 0..5 with \<open>((s >> i) & 1) == 1\<close>, every other pixel of the raster is
  unchanged, the buffer keeps its length (no write falls outside of the raster), and the
  cursor column is incremented by exactly 1, the row being kept; if the cursor column is
  \<open>size.w\<close> or more, \<open>render(s)\<close> changes nothing at all.
\<close>

theorem render_spec:
  assumes ok: "builder_ok b" and c0: "0 \<le> sint (column (sixelCursor b))"
  shows "(sint (column (sixelCursor b)) < uint (width (b_size b)) \<longrightarrow>
          (\<exists>b' color. render sixel b = Some b' \<and> b_currentColor b = Some color
             \<and> row (sixelCursor b') = row (sixelCursor b)
             \<and> sint (column (sixelCursor b')) = sint (column (sixelCursor b)) + 1
             \<and> b_size b' = b_size b \<and> length (buffer b') = length (buffer b)
             \<and> (\<forall>r c. r < height (b_size b) \<longrightarrow> c < width (b_size b) \<longrightarrow>
                   b_at b' \<lparr>row = r, column = c\<rparr> =
                     (if c = column (sixelCursor b)
                         \<and> (\<exists>i<6. drop_bit i sixel AND 1 = 1
                                   \<and> uint r = sint (row (sixelCursor b)) + int i)
                      then Some (opaque color)
                      else b_at b \<lparr>row = r, column = c\<rparr>))))
       \<and> (uint (width (b_size b)) \<le> sint (column (sixelCursor b)) \<longrightarrow>
            render sixel b = Some b)"
proof (intro conjI impI)
  assume "uint (width (b_size b)) \<le> sint (column (sixelCursor b))"
  then have "\<not> column (sixelCursor b) < width (b_size b)"
    using word_less_iff_sint [OF c0, of "width (b_size b)"] by simp
  then show "render sixel b = Some b"
    by (rule render_outside)
next
  assume "sint (column (sixelCursor b)) < uint (width (b_size b))"
  then have c: "column (sixelCursor b) < width (b_size b)"
    using word_less_iff_sint [OF c0, of "width (b_size b)"] by simp
  from render_inside [OF ok c, of sixel]
  obtain b' where b':
    "render sixel b = Some b'"
    "b' = b\<lparr>buffer := buffer b',
             sixelCursor := \<lparr>row = row (sixelCursor b), column = column (sixelCursor b) + 1\<rparr>\<rparr>"
    "length (buffer b') = length (buffer b)"
    "\<And>r' c'. r' < height (b_size b) \<Longrightarrow> c' < width (b_size b) \<Longrightarrow>
       pixel_at (buffer b') (idx b r' c') =
         (if c' = column (sixelCursor b)
             \<and> (\<exists>i<6. bit sixel i \<and> r' = row (sixelCursor b) + of_nat i)
          then opaque (cur_color b) else pixel_at (buffer b) (idx b r' c'))"
    by blast
  have sz: "b_size b' = b_size b" and rw: "row (sixelCursor b') = row (sixelCursor b)"
    and cl: "column (sixelCursor b') = column (sixelCursor b) + 1"
    and col: "colors b' = colors b"
    by (subst b'(2), simp)+
  have ok': "builder_ok b'"
    using ok b'(3) by (simp add: builder_ok_def sz col)
  have wsmall: "unat (width (b_size b)) < 2 ^ 31"
    using ok by (simp add: builder_ok_def)
  have uc: "unat (column (sixelCursor b)) < unat (width (b_size b))"
    using c by (simp add: word_less_nat_alt)
  have u1: "unat (column (sixelCursor b) + 1) = unat (column (sixelCursor b)) + 1"
    using uc wsmall by (simp add: unat_word_ariths)
  have s1: "sint (column (sixelCursor b) + 1) = int (unat (column (sixelCursor b))) + 1"
    using sint_small [of "column (sixelCursor b) + 1"] uc wsmall u1 by simp
  have s0: "sint (column (sixelCursor b)) = int (unat (column (sixelCursor b)))"
    using sint_small [of "column (sixelCursor b)"] uc wsmall by simp
  have px: "b_at b' \<lparr>row = r, column = c\<rparr> =
             (if c = column (sixelCursor b)
                 \<and> (\<exists>i<6. drop_bit i sixel AND 1 = 1
                           \<and> uint r = sint (row (sixelCursor b)) + int i)
              then Some (opaque (cur_color b))
              else b_at b \<lparr>row = r, column = c\<rparr>)"
    if r: "r < height (b_size b)" and cc: "c < width (b_size b)" for r c
  proof -
    have rs: "unat r < 2 ^ 31"
      using r ok by (simp add: builder_ok_def word_less_nat_alt)
    have e: "(\<exists>i<6. drop_bit i sixel AND 1 = 1 \<and> uint r = sint (row (sixelCursor b)) + int i)
          \<longleftrightarrow> (\<exists>i<6. bit sixel i \<and> r = row (sixelCursor b) + of_nat i)"
      using row_eq_iff [OF rs, of _ "row (sixelCursor b)"]
      by (auto simp add: bit_iff_and_drop_bit_eq_1)
    have a': "b_at b' \<lparr>row = r, column = c\<rparr> = Some (pixel_at (buffer b') (idx b r c))"
      using b_at_inside [OF ok', of r c] r cc by (simp add: sz idx_def)
    have a: "b_at b \<lparr>row = r, column = c\<rparr> = Some (pixel_at (buffer b) (idx b r c))"
      using b_at_inside [OF ok r cc] by (simp add: idx_def)
    define P where "P \<longleftrightarrow> c = column (sixelCursor b)
        \<and> (\<exists>i<6. bit sixel i \<and> r = row (sixelCursor b) + of_nat i)"
    have p: "pixel_at (buffer b') (idx b r c) =
               (if P then opaque (cur_color b) else pixel_at (buffer b) (idx b r c))"
      unfolding P_def by (rule b'(4) [OF r cc])
    show ?thesis
      unfolding e a a' p P_def [symmetric] by (cases P) simp_all
  qed
  show "\<exists>b' color. render sixel b = Some b' \<and> b_currentColor b = Some color
             \<and> row (sixelCursor b') = row (sixelCursor b)
             \<and> sint (column (sixelCursor b')) = sint (column (sixelCursor b)) + 1
             \<and> b_size b' = b_size b \<and> length (buffer b') = length (buffer b)
             \<and> (\<forall>r c. r < height (b_size b) \<longrightarrow> c < width (b_size b) \<longrightarrow>
                   b_at b' \<lparr>row = r, column = c\<rparr> =
                     (if c = column (sixelCursor b)
                         \<and> (\<exists>i<6. drop_bit i sixel AND 1 = 1
                                   \<and> uint r = sint (row (sixelCursor b)) + int i)
                      then Some (opaque color)
                      else b_at b \<lparr>row = r, column = c\<rparr>))"
    using b'(1) b_currentColor_ok [OF ok] rw sz b'(3) px
    by (intro exI [of _ b'] exI [of _ "cur_color b"]) (simp add: cl s1 s0)
qed

theorem render_spec_witness:
  "builder_ok example_builder \<and> 0 \<le> sint (column (sixelCursor example_builder))
   \<and> sint (column (sixelCursor example_builder)) < uint (width (b_size example_builder))
   \<and> (\<exists>b'. render 1 example_builder = Some b'
          \<and> sint (column (sixelCursor b')) = 1
          \<and> b_at b' \<lparr>row = 0, column = 0\<rparr> = Some (opaque (rgb 1 2 3))
          \<and> b_at b' \<lparr>row = 1, column = 0\<rparr> = b_at example_builder \<lparr>row = 1, column = 0\<rparr>)"
proof -
  have ok: "builder_ok example_builder"
    by (simp add: builder_ok_def example_builder_def)
  have c0: "0 \<le> sint (column (sixelCursor example_builder))"
    by (simp add: example_builder_def)
  have lt: "sint (column (sixelCursor example_builder))
              < uint (width (b_size example_builder))"
    by (simp add: example_builder_def)
  have col: "b_currentColor example_builder = Some (rgb 1 2 3)"
    by (simp add: b_currentColor_def palette_at_def example_builder_def)
  from render_spec [OF ok c0, of 1] lt col
  obtain b' where b':
    "render 1 example_builder = Some b'"
    "sint (column (sixelCursor b')) = sint (column (sixelCursor example_builder)) + 1"
    "\<forall>r c. r < height (b_size example_builder) \<longrightarrow> c < width (b_size example_builder) \<longrightarrow>
       b_at b' \<lparr>row = r, column = c\<rparr> =
         (if c = column (sixelCursor example_builder)
             \<and> (\<exists>i<6. drop_bit i (1 :: i8) AND 1 = 1
                       \<and> uint r = sint (row (sixelCursor example_builder)) + int i)
          then Some (opaque (rgb 1 2 3))
          else b_at example_builder \<lparr>row = r, column = c\<rparr>)"
    by auto
  have bits: "drop_bit i (1 :: i8) AND 1 = 1 \<longleftrightarrow> i = 0" for i
    by (cases i) (simp_all add: drop_bit_Suc)
  have p0: "b_at b' \<lparr>row = 0, column = 0\<rparr> = Some (opaque (rgb 1 2 3))"
    using b'(3) [rule_format, of 0 0] by (simp add: example_builder_def bits)
  have p1: "b_at b' \<lparr>row = 1, column = 0\<rparr> = b_at example_builder \<lparr>row = 1, column = 0\<rparr>"
    using b'(3) [rule_format, of 1 0] by (simp add: example_builder_def bits)
  show ?thesis
    using ok c0 lt b'(1,2) p0 p1 by (simp add: example_builder_def)
qed

text \<open>
  C5. On the builder that the constructor returns for \<open>maxSize = (65536, 65536)\<close>,
  \<open>setRaster(1, 1, (65536, 16384))\<close> sets the size to \<open>(65536, 16384)\<close> and leaves a
  pixel buffer of 0 bytes, not of \<open>4 \<cdot> 65536 \<cdot> 16384\<close> bytes: the product is computed in
  32 bits. (Where \<open>4 \<cdot> maxSize.w \<cdot> maxSize.h < 2 ^ 32\<close>, the buffer has exactly
  \<open>4 \<cdot> clamp(s.w, 0, maxSize.w) \<cdot> clamp(s.h, 0, maxSize.h)\<close> bytes: lemma
  \<open>setRaster_length_exact\<close>.)
\<close>

theorem setRaster_buffer_wraps:
  "new_SixelImageBuilder \<lparr>width = 65536, height = 65536\<rparr> 1 1 opaque_black
       \<lparr>palette = [rgb 1 2 3], maxSize = 4\<rparr> = Some wide_builder
   \<and> b_size (setRaster wide_builder 1 1 \<lparr>width = 65536, height = 16384\<rparr>)
        = \<lparr>width = 65536, height = 16384\<rparr>
   \<and> length (buffer (setRaster wide_builder 1 1 \<lparr>width = 65536, height = 16384\<rparr>)) = 0"
  by (simp add: new_SixelImageBuilder_def clear_def wide_builder_def setRaster_fields clamp_0)

text \<open>
  C6. In a builder whose cursor row is not negative and at least 6 below the largest
  \<^verbatim>\<open>int\<close>: \<open>newline()\<close> sets the cursor column to 0, increments the cursor row by 6 if
  \<open>sixelCursor.row + 6 < size.h\<close> and leaves the row unchanged otherwise, and modifies
  no byte of the buffer.
\<close>

theorem newline_spec:
  assumes "0 \<le> sint (row (sixelCursor b))" and "sint (row (sixelCursor b)) + 6 < 2 ^ 31"
  shows "sint (column (sixelCursor (newline b))) = 0
       \<and> sint (row (sixelCursor (newline b))) =
           (if sint (row (sixelCursor b)) + 6 < uint (height (b_size b))
            then sint (row (sixelCursor b)) + 6 else sint (row (sixelCursor b)))
       \<and> buffer (newline b) = buffer b \<and> b_size (newline b) = b_size b"
proof -
  let ?r = "row (sixelCursor b)"
  have r31: "unat ?r < 2 ^ 31"
    using assms(1) by (simp add: sint_nonneg_iff)
  have sr: "sint ?r = uint ?r"
    using sint_small [OF r31] by simp
  have b6: "uint ?r + 6 < 2 ^ 31"
    using assms(2) sr by simp
  have "uint (?r + 6) = (uint ?r + 6) mod 2 ^ 32"
    by (simp add: uint_word_ariths)
  also have "\<dots> = uint ?r + 6"
    using b6 by (intro mod_pos_pos_trivial) simp_all
  finally have u6: "uint (?r + 6) = uint ?r + 6" .
  have "0 \<le> sint (?r + 6)"
  proof -
    have "int (unat (?r + 6)) < int (2 ^ 31)"
      using u6 b6 by simp
    then have "unat (?r + 6) < 2 ^ 31"
      unfolding of_nat_less_iff .
    then show ?thesis by (simp add: sint_nonneg_iff)
  qed
  then have "unat (?r + 6) < 2 ^ 31"
    by (simp add: sint_nonneg_iff)
  then have s6: "sint (?r + 6) = uint ?r + 6"
    using sint_small [of "?r + 6"] u6 by simp
  have cmp: "?r + 6 < height (b_size b) \<longleftrightarrow> uint ?r + 6 < uint (height (b_size b))"
    by (simp add: word_less_def u6)
  show ?thesis
    by (simp add: newline_def Let_def cmp s6 sr)
qed


theorem newline_spec_witness:
  "0 \<le> sint (row (sixelCursor tall_builder))
   \<and> sint (row (sixelCursor tall_builder)) + 6 < 2 ^ 31
   \<and> sint (column (sixelCursor tall_builder)) = 1
   \<and> sint (row (sixelCursor tall_builder)) = 0
   \<and> sint (column (sixelCursor (newline tall_builder))) = 0
   \<and> sint (row (sixelCursor (newline tall_builder))) = 6
   \<and> buffer (newline tall_builder) = buffer tall_builder
   \<and> 0 \<le> sint (row (sixelCursor last_band_builder))
   \<and> sint (row (sixelCursor last_band_builder)) + 6 < 2 ^ 31
   \<and> sint (column (sixelCursor last_band_builder)) = 1
   \<and> sint (column (sixelCursor (newline last_band_builder))) = 0
   \<and> sint (row (sixelCursor (newline last_band_builder))) = 6
   \<and> buffer (newline last_band_builder) = buffer last_band_builder"
proof -
  have h: "0 \<le> sint (row (sixelCursor tall_builder))"
    "sint (row (sixelCursor tall_builder)) + 6 < 2 ^ 31"
    by (simp_all add: tall_builder_def)
  have g: "0 \<le> sint (row (sixelCursor last_band_builder))"
    "sint (row (sixelCursor last_band_builder)) + 6 < 2 ^ 31"
    by (simp_all add: last_band_builder_def)
  have t: "sint (column (sixelCursor (newline tall_builder))) = 0
     \<and> sint (row (sixelCursor (newline tall_builder))) = 6
     \<and> buffer (newline tall_builder) = buffer tall_builder"
    using newline_spec [OF h] by (simp add: tall_builder_def)
  have l: "sint (column (sixelCursor (newline last_band_builder))) = 0
     \<and> sint (row (sixelCursor (newline last_band_builder))) = 6
     \<and> buffer (newline last_band_builder) = buffer last_band_builder"
    using newline_spec [OF g] by (simp add: last_band_builder_def)
  have c: "sint (column (sixelCursor tall_builder)) = 1"
    "sint (row (sixelCursor tall_builder)) = 0"
    "sint (column (sixelCursor last_band_builder)) = 1"
    by (simp_all add: tall_builder_def last_band_builder_def)
  show ?thesis
    using h g t l c by simp
qed

text \<open>
  C10. \<open>setRaster(pan, pad, s)\<close> leaves the cursor (column and row) and the current
  color unchanged; and if the new clamped width is smaller than the cursor column, every
  sequence of \<open>render\<close> calls that follows changes nothing: no pixel, and not the cursor.
\<close>

theorem setRaster_frame:
  "sixelCursor (setRaster b pan pad s) = sixelCursor b
   \<and> currentColor (setRaster b pan pad s) = currentColor b
   \<and> (uint (width (b_size (setRaster b pan pad s))) < sint (column (sixelCursor b)) \<longrightarrow>
        (\<forall>sixels. apply_events (map Render sixels) (setRaster b pan pad s)
                    = Some (setRaster b pan pad s)))"
proof (intro conjI impI allI)
  fix sixels
  let ?b' = "setRaster b pan pad s"
  assume a: "uint (width (b_size ?b')) < sint (column (sixelCursor b))"
  have "0 \<le> uint (width (b_size ?b'))" by simp
  then have "0 \<le> sint (column (sixelCursor b))" using a by linarith
  then have "unat (column (sixelCursor b)) < 2 ^ 31"
    by (simp add: sint_nonneg_iff)
  then have "sint (column (sixelCursor b)) = uint (column (sixelCursor b))"
    using sint_small [of "column (sixelCursor b)"] by simp
  then have "\<not> column (sixelCursor ?b') < width (b_size ?b')"
    using a by (simp add: word_less_def setRaster_fields(1))
  then show "apply_events (map Render sixels) ?b' = Some ?b'"
    by (rule apply_renders_outside)
qed (simp_all add: setRaster_fields)

theorem setRaster_frame_witness:
  "uint (width (b_size (setRaster far_builder 1 1 \<lparr>width = 3, height = 6\<rparr>)))
     < sint (column (sixelCursor far_builder))
   \<and> apply_events (map Render [1, 63]) (setRaster far_builder 1 1 \<lparr>width = 3, height = 6\<rparr>)
       = Some (setRaster far_builder 1 1 \<lparr>width = 3, height = 6\<rparr>)"
proof -
  have h: "uint (width (b_size (setRaster far_builder 1 1 \<lparr>width = 3, height = 6\<rparr>)))
             < sint (column (sixelCursor far_builder))"
    by (simp add: setRaster_fields clamp_0 far_builder_def example_builder_def)
  show ?thesis
    using h setRaster_frame [of far_builder 1 1 "\<lparr>width = 3, height = 6\<rparr>"] by blast
qed

text \<open>
  C7. From a builder whose cursor is at (0, 0), with a buffer of four bytes for each
  pixel of the raster and extents that fit \<^verbatim>\<open>int\<close>, every finite sequence of \<open>render\<close>,
  \<open>rewind\<close> and \<open>newline\<close> operations returns, and leaves the cursor row a non-negative
  multiple of 6 and the cursor column in \<open>[0, size.w]\<close>.
\<close>

theorem cursor_discipline:
  assumes "builder_ok b" and "sixelCursor b = \<lparr>row = 0, column = 0\<rparr>"
    and "list_all cursor_event evs"
  shows "\<exists>b'. apply_events evs b = Some b' \<and> b_size b' = b_size b
           \<and> 0 \<le> sint (row (sixelCursor b')) \<and> sint (row (sixelCursor b')) mod 6 = 0
           \<and> 0 \<le> sint (column (sixelCursor b'))
           \<and> sint (column (sixelCursor b')) \<le> uint (width (b_size b'))"
proof -
  have "cursor_inv b"
    using assms(2) by (simp add: cursor_inv_def)
  from cursor_events_keep_inv [OF assms(1) this assms(3)]
  obtain b' where b': "apply_events evs b = Some b'" "builder_ok b'" "cursor_inv b'"
    "b_size b' = b_size b"
    by blast
  have w31: "uint (width (b_size b')) < 2 ^ 31" and h31: "uint (height (b_size b')) < 2 ^ 31"
    using b'(2) by (intro uint_lt_2p31; simp add: builder_ok_def)+
  have ur: "uint (row (sixelCursor b')) < 2 ^ 31" and uc: "uint (column (sixelCursor b')) < 2 ^ 31"
    using b'(3) w31 h31 by (simp_all add: cursor_inv_def)
  have "unat (row (sixelCursor b')) < 2 ^ 31" "unat (column (sixelCursor b')) < 2 ^ 31"
    by (rule unat_lt_2p31 [OF ur], rule unat_lt_2p31 [OF uc])
  then have "sint (row (sixelCursor b')) = uint (row (sixelCursor b'))"
    "sint (column (sixelCursor b')) = uint (column (sixelCursor b'))"
    using sint_small [of "row (sixelCursor b')"] sint_small [of "column (sixelCursor b')"]
    by simp_all
  then show ?thesis
    using b' by (intro exI [of _ b']) (simp add: cursor_inv_def)
qed


theorem cursor_discipline_witness:
  "builder_ok example_builder \<and> sixelCursor example_builder = \<lparr>row = 0, column = 0\<rparr>
   \<and> list_all cursor_event [Render 1, Newline, Render 1, Render 1, Rewind]
   \<and> (\<exists>b'. apply_events [Render 1, Newline, Render 1, Render 1, Rewind] example_builder = Some b'
         \<and> sint (row (sixelCursor b')) mod 6 = 0
         \<and> sint (column (sixelCursor b')) \<le> uint (width (b_size b')))"
proof -
  have ok: "builder_ok example_builder"
    by (simp add: builder_ok_def example_builder_def)
  have c0: "sixelCursor example_builder = \<lparr>row = 0, column = 0\<rparr>"
    by (simp add: example_builder_def)
  have evs: "list_all cursor_event [Render 1, Newline, Render 1, Render 1, Rewind]"
    by simp
  obtain b' where b':
    "apply_events [Render 1, Newline, Render 1, Render 1, Rewind] example_builder = Some b'
     \<and> b_size b' = b_size example_builder
     \<and> 0 \<le> sint (row (sixelCursor b')) \<and> sint (row (sixelCursor b')) mod 6 = 0
     \<and> 0 \<le> sint (column (sixelCursor b'))
     \<and> sint (column (sixelCursor b')) \<le> uint (width (b_size b'))"
    using cursor_discipline [OF ok c0 evs] ..
  note p1 = b' [THEN conjunct1]
    and p4 = b' [THEN conjunct2, THEN conjunct2, THEN conjunct2, THEN conjunct1]
    and p6 = b' [THEN conjunct2, THEN conjunct2, THEN conjunct2, THEN conjunct2, THEN conjunct2]
  have "\<exists>b'. apply_events [Render 1, Newline, Render 1, Render 1, Rewind] example_builder = Some b'
         \<and> sint (row (sixelCursor b')) mod 6 = 0
         \<and> sint (column (sixelCursor b')) \<le> uint (width (b_size b'))"
    by (intro exI [of _ b'] conjI) (rule p1 p4 p6)+
  with ok c0 evs show ?thesis
    by (intro conjI)
qed

section \<open>Palette: claims\<close>

text \<open>
  C8. The palette constructed with size 16 and cap 4 has 16 entries, more than its cap,
  and keeps them after \<open>setColor(0, c)\<close>: the constructor does not apply the cap.
  (From a palette whose length is within its cap, every sequence of \<open>setColor\<close> and
  \<open>setSize\<close> keeps \<open>palette.length \<le> maxSize\<close>: lemma \<open>palette_run_cap\<close>.)
\<close>

theorem palette_cap_broken_by_constructor:
  "length (palette (palette_run [OpSetColor 0 (rgb 9 9 9)] (new_SixelColorPalette 16 4))) = 16
   \<and> maxSize (palette_run [OpSetColor 0 (rgb 9 9 9)] (new_SixelColorPalette 16 4)) = 4"
  by (simp add: palette_run_def setColor_length_inside maxSize_setColor
      length_new_palette maxSize_new_palette)

text \<open>
  C9. Lookups wrap modulo the current palette length: \<open>palette.at(i)\<close> equals
  \<open>palette.at(i mod palette.length)\<close> for every index \<open>i\<close>, and, the palette not being
  empty, both are the entry at position \<open>i mod palette.length\<close>.
\<close>

theorem palette_at_wraps:
  "palette_at p i = palette_at p (of_nat (unat i mod length (palette p)))
   \<and> (palette p \<noteq> [] \<longrightarrow>
        palette_at p i = Some (palette p ! (unat i mod length (palette p))))"
proof -
  let ?n = "length (palette p)"
  have le: "unat i mod ?n \<le> unat i"
    by (rule mod_less_eq_dividend)
  have "unat i < 2 ^ 32"
    using unsigned_less [of i, where 'a = nat] by simp
  with le have "unat i mod ?n < 2 ^ 32"
    by (rule le_less_trans)
  then have "unat (of_nat (unat i mod ?n) :: u32) = unat i mod ?n"
    by (simp add: unat_of_nat)
  then show ?thesis
    by (simp add: palette_at_def)
qed

theorem palette_at_wraps_witness:
  "palette_at \<lparr>palette = [rgb 1 2 3, rgb 4 5 6], maxSize = 4\<rparr> 5 = Some (rgb 4 5 6)
   \<and> palette_at \<lparr>palette = [rgb 1 2 3, rgb 4 5 6], maxSize = 4\<rparr> 1 = Some (rgb 4 5 6)"
proof -
  have m: "(5::nat) mod Suc (Suc 0) = 1"
    by (simp flip: numeral_2_eq_2)
  show ?thesis
    using palette_at_wraps [of "\<lparr>palette = [rgb 1 2 3, rgb 4 5 6], maxSize = 4\<rparr>" 5]
    by (simp add: palette_at_def m)
qed

section \<open>Parser: claims\<close>

text \<open>
  C3. A parser in state \<open>RepeatIntroducer\<close> whose parameter list holds \<open>n = params[0]\<close>,
  fed a sixel byte \<open>b\<close> (\<open>63 \<le> b \<le> 126\<close>), emits \<open>render(b - 63)\<close> exactly \<open>n\<close> times,
  emits nothing else and goes to \<open>Ground\<close>. In particular the input \<open>#2!4N\<close>, parsed
  from the initial parser state, and its events applied to the builder that the
  constructor returns (for a raster of at least 4 by 6 pixels whose buffer length fits
  32 bits, and a palette of more than 2 entries), paints columns 0..3 at rows 0..3 with
  palette entry 2, opaque, and leaves rows 4..5 of those columns at the background color.
\<close>

theorem repeat_spec:
  "(state p = RepeatIntroducer \<and> params p \<noteq> [] \<and> 63 \<le> v \<and> v \<le> 126 \<longrightarrow>
      parse p v = Some (p\<lparr>state := Ground\<rparr>,
                        replicate (unat (params p ! 0)) (Render (ucast (v - 63)))))
   \<and> (4 \<le> unat (width maxSz) \<and> 6 \<le> unat (height maxSz)
        \<and> 4 * (unat (width maxSz) * unat (height maxSz)) < 2 ^ 32
        \<and> 2 < length (palette pal) \<longrightarrow>
      (\<exists>p' evs b0 b'.
          parse_all new_SixelParser [35, 50, 33, 52, 78] = Some (p', evs) \<and> state p' = Ground
          \<and> new_SixelImageBuilder maxSz av ah bg pal = Some b0
          \<and> apply_events evs b0 = Some b'
          \<and> (\<forall>r c. r < 4 \<and> c < 4 \<longrightarrow>
                b_at b' \<lparr>row = r, column = c\<rparr> = Some (opaque (palette pal ! 2)))
          \<and> (\<forall>r c. 4 \<le> r \<and> r < 6 \<and> c < 4 \<longrightarrow>
                b_at b' \<lparr>row = r, column = c\<rparr> = Some bg)))"
proof (intro conjI impI)
  assume "state p = RepeatIntroducer \<and> params p \<noteq> [] \<and> 63 \<le> v \<and> v \<le> 126"
  then show "parse p v = Some (p\<lparr>state := Ground\<rparr>,
                        replicate (unat (params p ! 0)) (Render (ucast (v - 63))))"
    using parse_repeat [of p v] by (simp add: isSixel_def toSixel_def)
next
  assume a: "4 \<le> unat (width maxSz) \<and> 6 \<le> unat (height maxSz)
        \<and> 4 * (unat (width maxSz) * unat (height maxSz)) < 2 ^ 32
        \<and> 2 < length (palette pal)"
  then have w: "4 \<le> unat (width maxSz)" and h: "6 \<le> unat (height maxSz)"
    and area: "4 * (unat (width maxSz) * unat (height maxSz)) < 2 ^ 32"
    and pal: "2 < length (palette pal)"
    by simp_all
  from scenario_repeat [OF w h area pal, of av ah bg]
  obtain b0 b' where s: "new_SixelImageBuilder maxSz av ah bg pal = Some b0"
    "apply_events [UseColor 2, Render 15, Render 15, Render 15, Render 15] b0 = Some b'"
    "\<forall>r c. r < 4 \<and> c < 4 \<longrightarrow>
       b_at b' \<lparr>row = r, column = c\<rparr> = Some (opaque (palette pal ! 2))"
    "\<forall>r c. 4 \<le> r \<and> r < 6 \<and> c < 4 \<longrightarrow> b_at b' \<lparr>row = r, column = c\<rparr> = Some bg"
    by blast
  show "\<exists>p' evs b0 b'.
          parse_all new_SixelParser [35, 50, 33, 52, 78] = Some (p', evs) \<and> state p' = Ground
          \<and> new_SixelImageBuilder maxSz av ah bg pal = Some b0
          \<and> apply_events evs b0 = Some b'
          \<and> (\<forall>r c. r < 4 \<and> c < 4 \<longrightarrow>
                b_at b' \<lparr>row = r, column = c\<rparr> = Some (opaque (palette pal ! 2)))
          \<and> (\<forall>r c. 4 \<le> r \<and> r < 6 \<and> c < 4 \<longrightarrow>
                b_at b' \<lparr>row = r, column = c\<rparr> = Some bg)"
    using parse_scenario s
    by (intro exI [of _ "\<lparr>state = Ground, params = [4]\<rparr>"]
        exI [of _ "[UseColor 2, Render 15, Render 15, Render 15, Render 15]"]
        exI [of _ b0] exI [of _ b']) simp
qed

theorem repeat_spec_witness:
  "parse \<lparr>state = RepeatIntroducer, params = [3]\<rparr> 126
     = Some (\<lparr>state = Ground, params = [3]\<rparr>, replicate 3 (Render 63))
   \<and> (\<exists>p' evs b0 b'.
          parse_all new_SixelParser [35, 50, 33, 52, 78] = Some (p', evs)
          \<and> new_SixelImageBuilder \<lparr>width = 4, height = 6\<rparr> 1 1 opaque_black vt340_3 = Some b0
          \<and> apply_events evs b0 = Some b'
          \<and> b_at b' \<lparr>row = 3, column = 3\<rparr> = Some (opaque (rgb 204 33 33))
          \<and> b_at b' \<lparr>row = 4, column = 3\<rparr> = Some opaque_black)"
proof -
  note t = repeat_spec [of "\<lparr>state = RepeatIntroducer, params = [3]\<rparr>" 126
      "\<lparr>width = 4, height = 6\<rparr>" vt340_3 1 1 opaque_black]
  have h1: "state \<lparr>state = RepeatIntroducer, params = [3]\<rparr> = RepeatIntroducer
      \<and> params \<lparr>state = RepeatIntroducer, params = [3]\<rparr> \<noteq> [] \<and> (63 :: u32) \<le> 126
      \<and> (126 :: u32) \<le> 126"
    by simp
  have h2: "4 \<le> unat (width \<lparr>width = 4, height = 6\<rparr>) \<and> 6 \<le> unat (height \<lparr>width = 4, height = 6\<rparr>)
        \<and> 4 * (unat (width \<lparr>width = 4, height = 6\<rparr>) * unat (height \<lparr>width = 4, height = 6\<rparr>)) < 2 ^ 32
        \<and> 2 < length (palette vt340_3)"
    by (simp add: vt340_3_def)
  have p1: "parse \<lparr>state = RepeatIntroducer, params = [3]\<rparr> 126
     = Some (\<lparr>state = Ground, params = [3]\<rparr>, replicate 3 (Render 63))"
    using t [THEN conjunct1, rule_format, OF h1] by simp
  from t [THEN conjunct2, rule_format, OF h2]
  obtain p' evs b0 b' where s:
    "parse_all new_SixelParser [35, 50, 33, 52, 78] = Some (p', evs)"
    "new_SixelImageBuilder \<lparr>width = 4, height = 6\<rparr> 1 1 opaque_black vt340_3 = Some b0"
    "apply_events evs b0 = Some b'"
    "\<forall>r c. r < 4 \<and> c < 4 \<longrightarrow>
       b_at b' \<lparr>row = r, column = c\<rparr> = Some (opaque (palette vt340_3 ! 2))"
    "\<forall>r c. 4 \<le> r \<and> r < 6 \<and> c < 4 \<longrightarrow> b_at b' \<lparr>row = r, column = c\<rparr> = Some opaque_black"
    by blast
  have a: "b_at b' \<lparr>row = 3, column = 3\<rparr> = Some (opaque (rgb 204 33 33))"
    using s(4) [rule_format, of 3 3] by (simp add: vt340_3_def)
  have b: "b_at b' \<lparr>row = 4, column = 3\<rparr> = Some opaque_black"
    using s(5) [rule_format, of 4 3] by simp
  show ?thesis
    using p1 s(1,2,3) a b by blast
qed

text \<open>
  C4. A parser leaving state \<open>ColorParam\<close>: with exactly one parameter it emits
  \<open>useColor(params[0])\<close> and nothing else; with exactly five parameters
  \<open>(index, space, a, b, c)\<close>, \<open>space = 2\<close> and \<open>a\<close>, \<open>b\<close>, \<open>c\<close> at most 65793 (so that
  \<open>255 \<cdot> v\<close> is exact in binary32; the range 0..100 that the conversion is written for
  lies within) it emits \<open>setColor(index, RGB(scale(a), scale(b), scale(c)))\<close>; with five
  parameters and \<open>space \<noteq> 2\<close> it emits no event; with any other number of parameters it
  emits no event.
\<close>

theorem leaveState_ColorParam:
  assumes "state p = ColorParam"
  shows "(length (params p) = 1 \<longrightarrow> leaveState p = Some (p, [UseColor (params p ! 0)]))
       \<and> (length (params p) = 5 \<and> params p ! 1 = 2 \<and> params p ! 2 \<le> 65793
            \<and> params p ! 3 \<le> 65793 \<and> params p ! 4 \<le> 65793 \<longrightarrow>
            leaveState p = Some (p, [SetColor (params p ! 0)
                                      \<lparr>red = scale (params p ! 2), green = scale (params p ! 3),
                                       blue = scale (params p ! 4)\<rparr>]))
       \<and> (length (params p) = 5 \<and> params p ! 1 \<noteq> 2 \<longrightarrow> leaveState p = Some (p, []))
       \<and> (length (params p) \<noteq> 1 \<and> length (params p) \<noteq> 5 \<longrightarrow> leaveState p = Some (p, []))"
proof (intro conjI impI)
  assume a: "length (params p) = 5 \<and> params p ! 1 = 2 \<and> params p ! 2 \<le> 65793
            \<and> params p ! 3 \<le> 65793 \<and> params p ! 4 \<le> 65793"
  have c2: "convertValue (params p ! 2) = Some (scale (params p ! 2))"
    using a by (intro convertValue_small small_of_le) simp
  have c3: "convertValue (params p ! 3) = Some (scale (params p ! 3))"
    using a by (intro convertValue_small small_of_le) simp
  have c4: "convertValue (params p ! 4) = Some (scale (params p ! 4))"
    using a by (intro convertValue_small small_of_le) simp
  show "leaveState p = Some (p, [SetColor (params p ! 0)
                                      \<lparr>red = scale (params p ! 2), green = scale (params p ! 3),
                                       blue = scale (params p ! 4)\<rparr>])"
    using assms a by (simp add: leaveState_def c2 c3 c4)
qed (insert assms, simp_all add: leaveState_def)

theorem leaveState_ColorParam_witness:
  "state red_def_parser = ColorParam
   \<and> leaveState red_def_parser
       = Some (red_def_parser, [SetColor 5 \<lparr>red = 255, green = 0, blue = 0\<rparr>])"
proof -
  have s: "state red_def_parser = ColorParam"
    by (simp add: red_def_parser_def)
  have "leaveState red_def_parser
       = Some (red_def_parser, [SetColor (params red_def_parser ! 0)
            \<lparr>red = scale (params red_def_parser ! 2), green = scale (params red_def_parser ! 3),
             blue = scale (params red_def_parser ! 4)\<rparr>])"
    using leaveState_ColorParam [OF s, THEN conjunct2, THEN conjunct1]
    by (simp add: red_def_parser_def)
  then show ?thesis
    using s by (simp add: red_def_parser_def scale_def)
qed

text \<open>
  The conversion is computed in \<^verbatim>\<open>float\<close>: for \<open>a = 16777217 = 2 ^ 24 + 1\<close>, which
  binary32 does not represent, the red component is 204, and
  \<open>floor(16777217 \<cdot> 255 / 100) mod 256\<close> is 207.
\<close>

theorem leaveState_scale_counterexample:
  "leaveState \<lparr>state = ColorParam, params = [5, 2, 16777217, 0, 0]\<rparr>
     = Some (\<lparr>state = ColorParam, params = [5, 2, 16777217, 0, 0]\<rparr>,
             [SetColor 5 \<lparr>red = 204, green = 0, blue = 0\<rparr>])
   \<and> leaveState \<lparr>state = ColorParam, params = [5, 2, 16777217, 0, 0]\<rparr>
     \<noteq> Some (\<lparr>state = ColorParam, params = [5, 2, 16777217, 0, 0]\<rparr>,
             [SetColor 5 \<lparr>red = scale 16777217, green = scale 0, blue = scale 0\<rparr>])"
  by (simp add: leaveState_def convertValue_2p24_1 convertValue_0 scale_2p24_1 scale_0)

section \<open>Fragment: claims\<close>

text \<open>
  C2. For a rasterized image with \<open>cellSize.w > 0\<close> and \<open>cellSize.h > 0\<close>, whose image
  data holds four bytes for each of its fewer than \<open>2 ^ 32\<close> pixels and whose cell has
  fewer than \<open>2 ^ 30\<close> pixels, and a cell position \<open>(col, row)\<close>, not negative, with
  \<open>col \<cdot> cellSize.w \<le> image.width\<close> and \<open>row \<cdot> cellSize.h \<le> image.height\<close>:
  \<open>fragment((col, row))\<close> returns a buffer of exactly \<open>cellSize.w \<cdot> cellSize.h \<cdot> 4\<close>
  bytes. With \<open>availableWidth\<close> and \<open>availableHeight\<close> as in the code, the first
  \<open>cellSize.h - availableHeight\<close> rows of the buffer are filled with the default color,
  and the \<open>availableHeight\<close> rows after them are copied from the image: row
  \<open>(cellSize.h - availableHeight) + y\<close> of the buffer is taken from image row
  \<open>yOffset + (availableHeight - 1 - y)\<close>; its first \<open>availableWidth \<cdot> 4\<close> bytes come from
  the image and the remaining \<open>(cellSize.w - availableWidth) \<cdot> 4\<close> bytes are the default
  color.
\<close>

theorem fragment_spec:
  fixes ri :: RasterizedImage and pos :: Coordinate
  defines "W \<equiv> unat (width (img_size (image ri)))" and "H \<equiv> unat (height (img_size (image ri)))"
    and "cw \<equiv> unat (width (cellSize ri))" and "ch \<equiv> unat (height (cellSize ri))"
  defines "xo \<equiv> unat (column pos) * cw" and "yo \<equiv> unat (row pos) * ch"
  defines "aw \<equiv> min (W - xo) cw" and "ah \<equiv> min (H - yo) ch"
  assumes cell_pos: "0 < cw" "0 < ch"
    and pos_nonneg: "0 \<le> sint (column pos)" "0 \<le> sint (row pos)"
    and in_range: "sint (column pos) * uint (width (cellSize ri)) \<le> uint (width (img_size (image ri)))"
      "sint (row pos) * uint (height (cellSize ri)) \<le> uint (height (img_size (image ri)))"
    and data: "length (img_data (image ri)) = 4 * (W * H)"
    and img32: "W * H < 2 ^ 32" and cell32: "4 * (cw * ch) < 2 ^ 32"
  shows "\<exists>out. fragment ri pos = Some out \<and> length out = cw * ch * 4
           \<and> (\<forall>j x k. j < ch - ah \<and> x < cw \<and> k < 4 \<longrightarrow>
                 out ! ((j * cw + x) * 4 + k) = rgba_bytes (defaultColor ri) ! k)
           \<and> (\<forall>y x k. y < ah \<and> x < aw \<and> k < 4 \<longrightarrow>
                 out ! (((ch - ah + y) * cw + x) * 4 + k)
                   = img_data (image ri) ! (((yo + (ah - 1 - y)) * W + xo + x) * 4 + k))
           \<and> (\<forall>y x k. y < ah \<and> aw \<le> x \<and> x < cw \<and> k < 4 \<longrightarrow>
                 out ! (((ch - ah + y) * cw + x) * 4 + k) = rgba_bytes (defaultColor ri) ! k)"
proof -
  let ?dcb = "rgba_bytes (defaultColor ri)"
  let ?A = "concat (replicate ((ch - ah) * cw) ?dcb)"
  let ?rows = "map (frag_row ri xo yo aw ah) [0..<ah]"
  let ?out = "?A @ concat ?rows"
  have xfit: "xo \<le> W"
    unfolding xo_def W_def cw_def using pos_nonneg(1) in_range(1) by (rule unat_times_le_of_sint)
  have yfit: "yo \<le> H"
    unfolding yo_def H_def ch_def using pos_nonneg(2) in_range(2) by (rule unat_times_le_of_sint)
  have run: "fragment ri pos = Some ?out"
    unfolding xo_def yo_def aw_def ah_def W_def H_def cw_def ch_def
    by (rule fragment_closed)
      (insert xfit yfit data img32 cell32 cell_pos(2),
        simp_all only: xo_def yo_def W_def H_def cw_def ch_def)
  have awcw: "aw \<le> cw" and ahch: "ah \<le> ch" and awW: "xo + aw \<le> W" and ahH: "yo + ah \<le> H"
    using xfit yfit by (simp_all add: aw_def ah_def)
  have src: "4 * ((yo + (ah - 1 - y)) * W + xo) + 4 * aw \<le> length (img_data (image ri))"
    if y: "y < ah" for y
  proof -
    have "yo + (ah - 1 - y) + 1 \<le> H" using ahH y by simp
    then have "(yo + (ah - 1 - y) + 1) * W \<le> H * W" by (rule mult_le_mono1)
    then have "(yo + (ah - 1 - y)) * W + W \<le> W * H" by (simp add: algebra_simps)
    then have "(yo + (ah - 1 - y)) * W + xo + aw \<le> W * H" using awW by linarith
    then show ?thesis unfolding data by simp
  qed
  have lenA: "length ?A = (ch - ah) * cw * 4"
    by (simp add: length_concat_uniform [where L = 4] length_rgba_bytes)
  have row_len: "\<forall>xs \<in> set ?rows. length xs = 4 * cw"
  proof
    fix xs assume "xs \<in> set ?rows"
    then obtain y where y: "y < ah" "xs = frag_row ri xo yo aw ah y" by auto
    show "length xs = 4 * cw"
      unfolding y(2) cw_def
      by (rule length_frag_row) (insert src [OF y(1)] awcw, simp_all only: W_def cw_def)
  qed
  have lenB: "length (concat ?rows) = ah * (4 * cw)"
    using length_concat_uniform [OF row_len] by simp
  have len: "length ?out = cw * ch * 4"
  proof -
    have "length ?out = length ?A + length (concat ?rows)"
      by (rule length_append)
    also have "\<dots> = (ch - ah) * cw * 4 + ah * (4 * cw)"
      unfolding lenA lenB ..
    also have "\<dots> = (ch - ah + ah) * (cw * 4)"
      by (simp only: add_mult_distrib mult.assoc mult.commute [of 4 cw])
    also have "\<dots> = cw * ch * 4"
      using ahch by (simp add: mult.commute)
    finally show ?thesis .
  qed
  have gap: "?out ! ((j * cw + x) * 4 + k) = ?dcb ! k"
    if "j < ch - ah" "x < cw" "k < 4" for j x k
  proof -
    have "j * cw + x < (ch - ah) * cw"
      using index_bound [of j "ch - ah" x cw] that by (simp add: mult.commute)
    then have i: "(j * cw + x) * 4 + k < length ?A"
      using that(3) unfolding lenA by simp
    have "?out ! ((j * cw + x) * 4 + k) = ?A ! ((j * cw + x) * 4 + k)"
      using i by (simp only: nth_append if_True)
    also have "\<dots> = ?dcb ! k"
      using \<open>j * cw + x < (ch - ah) * cw\<close> that(3)
      by (intro nth_concat_replicate length_rgba_bytes)
    finally show ?thesis .
  qed
  have in_row: "?out ! (((ch - ah + y) * cw + x) * 4 + k) = frag_row ri xo yo aw ah y ! (x * 4 + k)"
    if "y < ah" "x < cw" "k < 4" for y x k
  proof -
    have e: "((ch - ah + y) * cw + x) * 4 + k = length ?A + (y * (4 * cw) + (x * 4 + k))"
      unfolding lenA by (simp add: algebra_simps)
    have j: "x * 4 + k < 4 * cw" using that(2,3) by simp
    have "?out ! (((ch - ah + y) * cw + x) * 4 + k) = concat ?rows ! (y * (4 * cw) + (x * 4 + k))"
      unfolding e by (rule nth_append_length_plus)
    also have "\<dots> = ?rows ! y ! (x * 4 + k)"
      using row_len that(1) j by (intro nth_concat_uniform) simp_all
    also have "?rows ! y = frag_row ri xo yo aw ah y"
      using that(1) by simp
    finally show ?thesis .
  qed
  have img: "?out ! (((ch - ah + y) * cw + x) * 4 + k)
               = img_data (image ri) ! (((yo + (ah - 1 - y)) * W + xo + x) * 4 + k)"
    if "y < ah" "x < aw" "k < 4" for y x k
  proof -
    have "x < cw" using that(2) awcw by simp
    from in_row [OF that(1) this that(3)]
    show ?thesis
      unfolding W_def
      using nth_frag_row_image [OF src [OF that(1), unfolded W_def] that(2,3)] by simp
  qed
  have pad: "?out ! (((ch - ah + y) * cw + x) * 4 + k) = ?dcb ! k"
    if "y < ah" "aw \<le> x" "x < cw" "k < 4" for y x k
    using in_row [OF that(1,3,4)]
      nth_frag_row_default [OF src [OF that(1), unfolded W_def] that(2) that(3) [unfolded cw_def] that(4)]
    by simp
  show ?thesis
    using run len gap img pad by (intro exI [of _ ?out]) blast
qed

theorem fragment_spec_witness:
  "0 < unat (width (cellSize one_pixel)) \<and> 0 < unat (height (cellSize one_pixel))
   \<and> length (img_data (image one_pixel))
        = 4 * (unat (width (img_size (image one_pixel))) * unat (height (img_size (image one_pixel))))
   \<and> (\<exists>out. fragment one_pixel \<lparr>row = 0, column = 0\<rparr> = Some out \<and> length out = 8
          \<and> out ! 0 = rgba_bytes (defaultColor one_pixel) ! 0
          \<and> out ! 4 = img_data (image one_pixel) ! 0)"
proof -
  let ?P = "\<lparr>row = 0, column = 0\<rparr> :: Coordinate"
  let ?W = "unat (width (img_size (image one_pixel)))"
  let ?H = "unat (height (img_size (image one_pixel)))"
  let ?cw = "unat (width (cellSize one_pixel))"
  let ?ch = "unat (height (cellSize one_pixel))"
  let ?xo = "unat (column ?P) * ?cw"
  let ?yo = "unat (row ?P) * ?ch"
  let ?aw = "min (?W - ?xo) ?cw"
  let ?ah = "min (?H - ?yo) ?ch"
  have v: "?W = 1" "?H = 1" "?cw = 1" "?ch = 2" "?xo = 0" "?yo = 0" "?aw = 1" "?ah = 1"
    by (simp_all add: one_pixel_def)
  have h1: "0 < ?cw" and h2: "0 < ?ch"
    by (simp_all add: one_pixel_def)
  have h3: "0 \<le> sint (column ?P)" and h4: "0 \<le> sint (row ?P)"
    by simp_all
  have h5: "sint (column ?P) * uint (width (cellSize one_pixel))
              \<le> uint (width (img_size (image one_pixel)))"
    and h6: "sint (row ?P) * uint (height (cellSize one_pixel))
              \<le> uint (height (img_size (image one_pixel)))"
    by (simp_all add: one_pixel_def)
  have h7: "length (img_data (image one_pixel)) = 4 * (?W * ?H)"
    by (simp add: one_pixel_def)
  have h8: "?W * ?H < 2 ^ 32" and h9: "4 * (?cw * ?ch) < 2 ^ 32"
    by (simp_all add: one_pixel_def)
  from fragment_spec [OF h1 h2 h3 h4 h5 h6 h7 h8 h9]
  obtain out where o: "fragment one_pixel ?P = Some out" "length out = ?cw * ?ch * 4"
    "\<forall>j x k. j < ?ch - ?ah \<and> x < ?cw \<and> k < 4 \<longrightarrow>
       out ! ((j * ?cw + x) * 4 + k) = rgba_bytes (defaultColor one_pixel) ! k"
    "\<forall>y x k. y < ?ah \<and> x < ?aw \<and> k < 4 \<longrightarrow>
       out ! (((?ch - ?ah + y) * ?cw + x) * 4 + k)
         = img_data (image one_pixel) ! (((?yo + (?ah - 1 - y)) * ?W + ?xo + x) * 4 + k)"
    by blast
  have a: "out ! 0 = rgba_bytes (defaultColor one_pixel) ! 0"
    using o(3) [rule_format, of 0 0 0] unfolding v by simp
  have b: "out ! 4 = img_data (image one_pixel) ! 0"
    using o(4) [rule_format, of 0 0 0] unfolding v by simp
  have l: "length out = 8"
    using o(2) unfolding v by simp
  show ?thesis
    using h1 h2 h7 o(1) l a b by blast
qed

text \<open>
  The rows of the default color come first in the buffer, not last: for an image of one
  pixel in a cell of one by two pixels, the fragment is the default color followed by the
  pixel of the image, and not the pixel of the image (row 0, copied) followed by the
  default color (the bottom row).
\<close>

theorem fragment_rows_counterexample:
  "fragment one_pixel \<lparr>row = 0, column = 0\<rparr> = Some [9, 9, 9, 9, 1, 2, 3, 4]
   \<and> [9, 9, 9, 9, 1, 2, 3, 4] \<noteq> img_data (image one_pixel) @ rgba_bytes (defaultColor one_pixel)"
proof -
  let ?dc = "\<lparr>rgba_red = 9, rgba_green = 9, rgba_blue = 9, rgba_alpha = 9\<rparr> :: RGBAColor"
  have len: "(unat (1 :: u32) * unat (2 :: u32) * 4) mod 2 ^ 64 = 8"
    by simp
  have r8: "replicate 8 (0 :: u8) = [0, 0, 0, 0, 0, 0, 0, 0]"
    by (simp add: numeral_eq_Suc)
  have put: "put_color ?dc ([0, 0, 0, 0, 0, 0, 0, 0], 0) = Some ([9, 9, 9, 9, 0, 0, 0, 0], 4)"
    by (simp add: put_color_def eval_nat_numeral)
  have fill: "fill_loop (Suc 0) 2 ?dc ([0, 0, 0, 0, 0, 0, 0, 0], 0) = Some ([9, 9, 9, 9, 0, 0, 0, 0], 4)"
    by (simp add: fill_loop_step fill_loop_done put)
  have copy: "copy_bytes [1, 2, 3, 4] 0 4 ([9, 9, 9, 9, 0, 0, 0, 0], 4)
                = Some ([9, 9, 9, 9, 1, 2, 3, 4], 8)"
    by (simp add: copy_bytes_def eval_nat_numeral)
  have rows: "row_loop 0 one_pixel 0 0 1 1 ([9, 9, 9, 9, 0, 0, 0, 0], 4)
                = Some ([9, 9, 9, 9, 1, 2, 3, 4], 8)"
    by (simp add: row_loop_step row_loop_done one_pixel_def copy fill_loop_done)
  have "fragment one_pixel \<lparr>row = 0, column = 0\<rparr> = Some [9, 9, 9, 9, 1, 2, 3, 4]"
    using rows by (simp add: fragment_def Let_def one_pixel_def len r8 fill)
  then show ?thesis
    by (simp add: one_pixel_def rgba_bytes_def)
qed

end
